theory Spec2Isabelle
  imports Complex_Main "HOL-Library.FSet" "HOL-Library.Char_ord" "HOL-Library.List_Lexorder"
    "HOL-Library.Product_Lexorder"
begin

section \<open>Python strings\<close>

text \<open>
  A Python \<open>str\<close> is modelled as a \<^typ>\<open>string\<close>: a list of characters, one
  \<^typ>\<open>char\<close> per code point, so \<^const>\<open>length\<close> is Python's \<open>len\<close>. Only the
  code points below 256 exist in the model; the predicates below are Python's on that range.
  Strings compare as in Python: lexicographically by code point.
\<close>

definition code :: "char \<Rightarrow> nat" where
  "code c = of_char c"

definition is_az :: "char \<Rightarrow> bool" where
  \<comment> \<open>the regular-expression class \<open>[a-z]\<close>\<close>
  "is_az c \<longleftrightarrow> 97 \<le> code c \<and> code c \<le> 122"

definition is_AZ :: "char \<Rightarrow> bool" where
  \<comment> \<open>the regular-expression class \<open>[A-Z]\<close>\<close>
  "is_AZ c \<longleftrightarrow> 65 \<le> code c \<and> code c \<le> 90"

definition char_isupper :: "char \<Rightarrow> bool" where
  \<comment> \<open>cased and upper case: \<open>A-Z\<close>, and \<open>U+00C0-U+00DE\<close> without the multiplication sign\<close>
  "char_isupper c \<longleftrightarrow> is_AZ c \<or> (192 \<le> code c \<and> code c \<le> 222 \<and> code c \<noteq> 215)"

definition char_islower :: "char \<Rightarrow> bool" where
  \<comment> \<open>cased and lower case: \<open>a-z\<close>, the ordinal indicators, the micro sign,
      and \<open>U+00DF-U+00FF\<close> without the division sign\<close>
  "char_islower c \<longleftrightarrow> is_az c \<or> code c = 170 \<or> code c = 181 \<or> code c = 186
     \<or> (223 \<le> code c \<and> code c \<noteq> 247)"

definition char_isalpha :: "char \<Rightarrow> bool" where
  "char_isalpha c \<longleftrightarrow> char_isupper c \<or> char_islower c"

definition char_isspace :: "char \<Rightarrow> bool" where
  "char_isspace c \<longleftrightarrow> (9 \<le> code c \<and> code c \<le> 13) \<or> (28 \<le> code c \<and> code c \<le> 32)
     \<or> code c = 133 \<or> code c = 160"

definition char_lower :: "char \<Rightarrow> char" where
  \<comment> \<open>every upper-case code point below 256 has its lower-case partner 32 above it\<close>
  "char_lower c = (if char_isupper c then char_of (code c + 32) else c)"

definition isalpha :: "string \<Rightarrow> bool" where
  \<comment> \<open>\<open>str.isalpha\<close>: non-empty and every character alphabetic\<close>
  "isalpha w \<longleftrightarrow> w \<noteq> [] \<and> list_all char_isalpha w"

definition isupper :: "string \<Rightarrow> bool" where
  \<comment> \<open>\<open>str.isupper\<close>: at least one cased character and no lower-case one\<close>
  "isupper w \<longleftrightarrow> list_ex char_isupper w \<and> \<not> list_ex char_islower w"

definition lower :: "string \<Rightarrow> string" where
  "lower w = map char_lower w"

definition strip :: "string \<Rightarrow> string" where
  "strip w = rev (dropWhile char_isspace (rev (dropWhile char_isspace w)))"

definition is_ascii :: "string \<Rightarrow> bool" where
  \<comment> \<open>\<open>all(ord(c) < 128 for c in word)\<close>\<close>
  "is_ascii w \<longleftrightarrow> list_all (\<lambda>c. code c < 128) w"

definition endswith :: "string \<Rightarrow> string \<Rightarrow> bool" where
  "endswith w s \<longleftrightarrow> length s \<le> length w \<and> drop (length w - length s) w = s"

definition startswith :: "string \<Rightarrow> string \<Rightarrow> bool" where
  "startswith w s \<longleftrightarrow> take (length s) w = s"

definition char_in :: "char \<Rightarrow> string \<Rightarrow> bool" where
  \<comment> \<open>\<open>c in '...'\<close> for a one-character \<open>c\<close>\<close>
  "char_in c s \<longleftrightarrow> c \<in> set s"

datatype py_error = IndexError | ValueError | RuntimeError | AttributeError | SystemExit string

section \<open>The morphological expander (\<open>create_truly_readable_dictionary.py\<close>)\<close>

definition irregular :: "(string \<times> string list) list" where
  "irregular = [
    (''be'', [''am'', ''is'', ''are'', ''was'', ''were'', ''been'', ''being'']),
    (''have'', [''has'', ''had'', ''having'']),
    (''do'', [''does'', ''did'', ''done'', ''doing'']),
    (''go'', [''goes'', ''went'', ''gone'', ''going'']),
    (''get'', [''gets'', ''got'', ''gotten'', ''getting'']),
    (''make'', [''makes'', ''made'', ''making'', ''maker'']),
    (''take'', [''takes'', ''took'', ''taken'', ''taking'']),
    (''come'', [''comes'', ''came'', ''coming'']),
    (''see'', [''sees'', ''saw'', ''seen'', ''seeing'']),
    (''know'', [''knows'', ''knew'', ''known'', ''knowing'']),
    (''think'', [''thinks'', ''thought'', ''thinking'']),
    (''give'', [''gives'', ''gave'', ''given'', ''giving'']),
    (''find'', [''finds'', ''found'', ''finding'', ''finder'']),
    (''tell'', [''tells'', ''told'', ''telling'', ''teller'']),
    (''work'', [''works'', ''worked'', ''working'', ''worker'']),
    (''call'', [''calls'', ''called'', ''calling'', ''caller'']),
    (''try'', [''tries'', ''tried'', ''trying'']),
    (''use'', [''uses'', ''used'', ''using'', ''user'', ''users'']),
    (''need'', [''needs'', ''needed'', ''needing'']),
    (''feel'', [''feels'', ''felt'', ''feeling'']),
    (''leave'', [''leaves'', ''left'', ''leaving'']),
    (''put'', [''puts'', ''putting'']),
    (''mean'', [''means'', ''meant'', ''meaning'']),
    (''keep'', [''keeps'', ''kept'', ''keeping'', ''keeper'']),
    (''let'', [''lets'', ''letting'']),
    (''begin'', [''begins'', ''began'', ''begun'', ''beginning'']),
    (''seem'', [''seems'', ''seemed'', ''seeming'']),
    (''help'', [''helps'', ''helped'', ''helping'', ''helper'']),
    (''show'', [''shows'', ''showed'', ''shown'', ''showing'']),
    (''hear'', [''hears'', ''heard'', ''hearing'']),
    (''play'', [''plays'', ''played'', ''playing'', ''player'']),
    (''run'', [''runs'', ''ran'', ''running'', ''runner'']),
    (''move'', [''moves'', ''moved'', ''moving'', ''mover'']),
    (''like'', [''likes'', ''liked'', ''liking'']),
    (''live'', [''lives'', ''lived'', ''living'']),
    (''bring'', [''brings'', ''brought'', ''bringing'']),
    (''write'', [''writes'', ''wrote'', ''written'', ''writing'', ''writer'']),
    (''sit'', [''sits'', ''sat'', ''sitting'', ''sitter'']),
    (''stand'', [''stands'', ''stood'', ''standing'']),
    (''lose'', [''loses'', ''lost'', ''losing'', ''loser'']),
    (''pay'', [''pays'', ''paid'', ''paying'', ''payer'']),
    (''meet'', [''meets'', ''met'', ''meeting'']),
    (''set'', [''sets'', ''setting'', ''setter'']),
    (''learn'', [''learns'', ''learned'', ''learning'', ''learner'']),
    (''change'', [''changes'', ''changed'', ''changing'', ''changer'']),
    (''lead'', [''leads'', ''led'', ''leading'', ''leader'']),
    (''watch'', [''watches'', ''watched'', ''watching'', ''watcher'']),
    (''follow'', [''follows'', ''followed'', ''following'', ''follower'']),
    (''stop'', [''stops'', ''stopped'', ''stopping'', ''stopper'']),
    (''create'', [''creates'', ''created'', ''creating'', ''creator'']),
    (''speak'', [''speaks'', ''spoke'', ''spoken'', ''speaking'', ''speaker'']),
    (''read'', [''reads'', ''reading'', ''reader'']),
    (''spend'', [''spends'', ''spent'', ''spending'', ''spender'']),
    (''grow'', [''grows'', ''grew'', ''grown'', ''growing'', ''grower'']),
    (''open'', [''opens'', ''opened'', ''opening'', ''opener'']),
    (''walk'', [''walks'', ''walked'', ''walking'', ''walker'']),
    (''win'', [''wins'', ''won'', ''winning'', ''winner'']),
    (''teach'', [''teaches'', ''taught'', ''teaching'', ''teacher'']),
    (''offer'', [''offers'', ''offered'', ''offering'']),
    (''remember'', [''remembers'', ''remembered'', ''remembering'']),
    (''love'', [''loves'', ''loved'', ''loving'', ''lover'']),
    (''consider'', [''considers'', ''considered'', ''considering'']),
    (''appear'', [''appears'', ''appeared'', ''appearing'']),
    (''buy'', [''buys'', ''bought'', ''buying'', ''buyer'']),
    (''wait'', [''waits'', ''waited'', ''waiting'', ''waiter'']),
    (''serve'', [''serves'', ''served'', ''serving'', ''server'']),
    (''die'', [''dies'', ''died'', ''dying'']),
    (''send'', [''sends'', ''sent'', ''sending'', ''sender'']),
    (''build'', [''builds'', ''built'', ''building'', ''builder'']),
    (''stay'', [''stays'', ''stayed'', ''staying'']),
    (''fall'', [''falls'', ''fell'', ''fallen'', ''falling'']),
    (''cut'', [''cuts'', ''cutting'', ''cutter'']),
    (''reach'', [''reaches'', ''reached'', ''reaching'']),
    (''kill'', [''kills'', ''killed'', ''killing'', ''killer'']),
    (''eat'', [''eats'', ''ate'', ''eaten'', ''eating'', ''eater'']),
    (''drink'', [''drinks'', ''drank'', ''drunk'', ''drinking'', ''drinker'']),
    (''sleep'', [''sleeps'', ''slept'', ''sleeping'', ''sleeper'']),
    (''wake'', [''wakes'', ''woke'', ''woken'', ''waking''])
  ]"

definition from_end :: "string \<Rightarrow> nat \<Rightarrow> char" where
  \<comment> \<open>\<open>w[-k]\<close>, read only where the source has checked \<open>len(w) >= k\<close>\<close>
  "from_end w k = w ! (length w - k)"

definition doubles :: "string \<Rightarrow> bool" where
  \<comment> \<open>the consonant-doubling test shared by the \<open>-ing\<close> and \<open>-ed\<close> rules\<close>
  "doubles w \<longleftrightarrow> length w \<ge> 3 \<and> char_in (from_end w 1) ''bcdgklmnprstvz''
     \<and> char_in (from_end w 2) ''aeiou'' \<and> \<not> char_in (from_end w 3) ''aeiou''"

definition consonant_y :: "string \<Rightarrow> bool" where
  "consonant_y w \<longleftrightarrow> endswith w ''y'' \<and> length w > 2 \<and> \<not> char_in (from_end w 2) ''aeiou''"

definition s_form :: "string \<Rightarrow> string" where
  "s_form w =
     (if consonant_y w then butlast w @ ''ies''
      else if list_ex (endswith w) [''s'', ''ss'', ''sh'', ''ch'', ''x'', ''z''] then w @ ''es''
      else w @ ''s'')"

definition ing_form :: "string \<Rightarrow> string" where
  "ing_form w =
     (if endswith w ''e'' \<and> \<not> endswith w ''ee'' then butlast w @ ''ing''
      else if doubles w then w @ [from_end w 1] @ ''ing''
      else w @ ''ing'')"

definition ed_form :: "string \<Rightarrow> string" where
  "ed_form w =
     (if endswith w ''e'' then w @ ''d''
      else if consonant_y w then butlast w @ ''ied''
      else if doubles w then w @ [from_end w 1] @ ''ed''
      else w @ ''ed'')"

definition er_form :: "string \<Rightarrow> string" where
  "er_form w =
     (if endswith w ''e'' then w @ ''r''
      else if consonant_y w then butlast w @ ''ier''
      else w @ ''er'')"

definition ly_form :: "string \<Rightarrow> string" where
  "ly_form w = (if endswith w ''y'' then butlast w @ ''ily'' else w @ ''ly'')"

definition generate_all_forms :: "string \<Rightarrow> string set" where
  "generate_all_forms base_word =
     (let forms = (case map_of irregular base_word of
                     Some fs \<Rightarrow> {base_word} \<union> set fs
                   | None \<Rightarrow> {base_word, s_form base_word, ing_form base_word,
                               ed_form base_word, er_form base_word, ly_form base_word})
      in Set.filter (\<lambda>f. 2 \<le> length f \<and> length f \<le> 12) forms)"

section \<open>The convergence controller (\<open>letter_wordlist_generator.py\<close>)\<close>

text \<open>
  The command-line options the controller reads. \<open>--model\<close> and \<open>--temp\<close> only travel to
  the language model and are left out. The length bounds are natural numbers: the model
  covers the runs whose \<open>--min-length\<close> and \<open>--max-length\<close> are not negative.
\<close>

record opts =
  target_size :: int
  max_cycles :: int
  freq_threshold :: real
  max_retries :: int
  per_letter_max :: int
  min_length :: nat
  max_length :: nat
  allow_proper_nouns :: bool
  auto_loosen :: bool
  loosen_step :: real
  min_freq :: real

text \<open>
  \<open>make_word_re\<close> compiles \<open>^[a-z]{min_len,max_len}$\<close>. The compiled pattern is kept as
  its two bounds and \<open>fullmatch\<close> decides it: every character in \<open>a-z\<close> and the length
  within the bounds.
\<close>

type_synonym pattern = "nat \<times> nat"

definition make_word_re :: "nat \<Rightarrow> nat \<Rightarrow> pattern" where
  "make_word_re min_len max_len = (min_len, max_len)"

definition fullmatch :: "pattern \<Rightarrow> string \<Rightarrow> bool" where
  "fullmatch re_word w \<longleftrightarrow>
     list_all is_az w \<and> fst re_word \<le> length w \<and> length w \<le> snd re_word"

text \<open>
  \<open>zipf_frequency(w, "en")\<close> belongs to the \<open>wordfreq\<close> library: it is the parameter
  \<open>zipf\<close>. Frequencies and thresholds are real numbers; the source compares and subtracts
  Python floats, whose rounding is not modelled.

  \<open>is_valid\<close> reads \<open>word[0]\<close>, which raises \<open>IndexError\<close> on the empty word.
\<close>

definition is_valid ::
  "(string \<Rightarrow> real) \<Rightarrow> string \<Rightarrow> real \<Rightarrow> string set \<Rightarrow> pattern \<Rightarrow> bool \<Rightarrow> py_error + bool"
where
  "is_valid zipf w freq_thr banned re_word allow_proper =
     (if w \<in> banned then Inr False
      else if \<not> fullmatch re_word w then Inr False
      else if zipf w < freq_thr then Inr False
      else if allow_proper then Inr True
      else (case w of
              [] \<Rightarrow> Inl IndexError
            | c # _ \<Rightarrow> if char_isupper c then Inr False else Inr True))"

subsection \<open>The language model\<close>

text \<open>
  Each call of \<open>openai.ChatCompletion.create\<close> either raises \<open>OpenAIError\<close> or returns
  a message content. The service is the parameter \<open>api\<close>: the outcome of the \<open>k\<close>-th call
  of the run, whatever the prompt was. \<open>query_model\<close> tries up to \<open>retries\<close> times and
  returns the stripped content of the first call that succeeds, or raises \<open>RuntimeError\<close>;
  it returns the number of the next call with its result.
\<close>

datatype api_result = OpenAIError | Content string

fun query_model :: "(nat \<Rightarrow> api_result) \<Rightarrow> nat \<Rightarrow> nat \<Rightarrow> (py_error + string) \<times> nat" where
  "query_model api k 0 = (Inl RuntimeError, k)"
| "query_model api k (Suc n) =
     (case api k of
        Content s \<Rightarrow> (Inr (strip s), Suc k)
      | OpenAIError \<Rightarrow> query_model api (Suc k) n)"

definition is_linebreak :: "char \<Rightarrow> bool" where
  "is_linebreak c \<longleftrightarrow> (10 \<le> code c \<and> code c \<le> 13) \<or> (28 \<le> code c \<and> code c \<le> 30)
     \<or> code c = 133"

fun splitlines_from :: "string \<Rightarrow> string \<Rightarrow> string list" where
  "splitlines_from cur [] = (if cur = [] then [] else [rev cur])"
| "splitlines_from cur [c] =
     (if is_linebreak c then [rev cur] else [rev (c # cur)])"
| "splitlines_from cur (c # d # cs) =
     (if code c = 13 \<and> code d = 10 then rev cur # splitlines_from [] cs
      else if is_linebreak c then rev cur # splitlines_from [] (d # cs)
      else splitlines_from (c # cur) (d # cs))"

definition splitlines :: "string \<Rightarrow> string list" where
  "splitlines s = splitlines_from [] s"

subsection \<open>One alphabet pass\<close>

text \<open>
  The state a pass works on: the number of the next call of the service, the set
  \<open>final_words\<close>, the lines appended to the output file, and \<open>added_this_pass\<close>.
\<close>

type_synonym pass_state = "nat \<times> string fset \<times> string list \<times> nat"

fun new_batch ::
  "(string \<Rightarrow> real) \<Rightarrow> opts \<Rightarrow> real \<Rightarrow> string set \<Rightarrow> pattern \<Rightarrow> string fset \<Rightarrow> string fset
     \<Rightarrow> string list \<Rightarrow> py_error + string list"
where
  "new_batch zipf opts freq_thr banned re_word final_words seen [] = Inr []"
| "new_batch zipf opts freq_thr banned re_word final_words seen (line # rest) =
     (let w = lower (strip line) in
      if w \<noteq> [] \<and> w |\<notin>| final_words \<and> w |\<notin>| seen then
        (case is_valid zipf w freq_thr banned re_word (allow_proper_nouns opts) of
           Inl e \<Rightarrow> Inl e
         | Inr ok \<Rightarrow>
             (case new_batch zipf opts freq_thr banned re_word final_words seen rest of
                Inl e \<Rightarrow> Inl e
              | Inr ws \<Rightarrow> Inr (if ok then w # ws else ws)))
      else new_batch zipf opts freq_thr banned re_word final_words seen rest)"

lemma new_batch_fresh:
  "new_batch zipf opts freq_thr banned re_word final_words seen ls = Inr ws \<Longrightarrow>
     \<forall>w \<in> set ws. w |\<notin>| seen \<and> w |\<notin>| final_words"
  by (induction ls arbitrary: ws) (auto simp: Let_def split: if_splits sum.splits)

lemma new_batch_grows:
  assumes "new_batch zipf opts freq_thr banned re_word final_words seen ls = Inr (w # ws)"
  shows "fcard seen < fcard (seen |\<union>| fset_of_list (w # ws))"
proof -
  from assms have "w |\<notin>| seen"
    using new_batch_fresh by fastforce
  then have "seen |\<subset>| seen |\<union>| fset_of_list (w # ws)"
    by auto
  then show ?thesis by (rule pfsubset_fcard_mono)
qed

function letter_loop ::
  "(string \<Rightarrow> real) \<Rightarrow> (nat \<Rightarrow> api_result) \<Rightarrow> opts \<Rightarrow> real \<Rightarrow> string set \<Rightarrow> pattern
     \<Rightarrow> string fset \<Rightarrow> pass_state \<Rightarrow> py_error + pass_state"
where
  "letter_loop zipf api opts freq_thr banned re_word seen (k, final_words, out, added) =
     (if int (fcard seen) < per_letter_max opts then
        (case query_model api k (nat (max_retries opts)) of
           (Inl e, k') \<Rightarrow> Inl e
         | (Inr text, k') \<Rightarrow>
             if text = [] then Inr (k', final_words, out, added)
             else
               (case new_batch zipf opts freq_thr banned re_word final_words seen
                       (splitlines text) of
                  Inl e \<Rightarrow> Inl e
                | Inr [] \<Rightarrow> Inr (k', final_words, out, added)
                | Inr (w # ws) \<Rightarrow>
                    letter_loop zipf api opts freq_thr banned re_word
                      (seen |\<union>| fset_of_list (w # ws))
                      (k', final_words |\<union>| fset_of_list (w # ws),
                       out @ map (\<lambda>w. w @ [char_of (10::nat)]) (w # ws),
                       added + length (w # ws))))
      else Inr (k, final_words, out, added))"
  by pat_completeness auto
termination
proof (relation "measure (\<lambda>(zipf, api, opts, freq_thr, banned, re_word, seen, st).
                            nat (per_letter_max opts - int (fcard seen)))")
  show "wf (measure (\<lambda>(zipf, api, opts, freq_thr, banned, re_word, seen, st).
                            nat (per_letter_max opts - int (fcard seen))))"
    by simp
next
  fix zipf :: "string \<Rightarrow> real" and opts :: opts and freq_thr banned re_word
    and seen final_words :: "string fset" and b batch w ws
  assume below: "int (fcard seen) < per_letter_max opts"
    and batch: "new_batch zipf opts freq_thr banned re_word final_words seen (splitlines b)
                  = Inr batch" "batch = w # ws"
  from batch have "fcard seen < fcard (seen |\<union>| fset_of_list (w # ws))"
    by (auto dest: new_batch_grows)
  with below show "((zipf, api, opts, freq_thr, banned, re_word,
             seen |\<union>| fset_of_list (w # ws), k',
             final_words |\<union>| fset_of_list (w # ws),
             out @ map (\<lambda>w. w @ [char_of (10::nat)]) (w # ws),
             added + length (w # ws)),
            zipf, api, opts, freq_thr, banned, re_word, seen, k, final_words, out, added)
           \<in> measure (\<lambda>(zipf, api, opts, freq_thr, banned, re_word, seen, st).
                            nat (per_letter_max opts - int (fcard seen)))"
    for api :: "nat \<Rightarrow> api_result" and k' k :: nat and out :: "string list" and added :: nat
    by simp
qed

fun alphabet_pass ::
  "(string \<Rightarrow> real) \<Rightarrow> (nat \<Rightarrow> api_result) \<Rightarrow> opts \<Rightarrow> real \<Rightarrow> string set \<Rightarrow> pattern
     \<Rightarrow> string \<Rightarrow> pass_state \<Rightarrow> py_error + pass_state"
where
  "alphabet_pass zipf api opts freq_thr banned re_word [] st = Inr st"
| "alphabet_pass zipf api opts freq_thr banned re_word (letter # letters)
       (k, final_words, out, added) =
     (let seen = ffilter (\<lambda>w. startswith w [letter]) final_words in
      if int (fcard seen) \<ge> per_letter_max opts then
        alphabet_pass zipf api opts freq_thr banned re_word letters (k, final_words, out, added)
      else
        (case letter_loop zipf api opts freq_thr banned re_word seen
                (k, final_words, out, added) of
           Inl e \<Rightarrow> Inl e
         | Inr st \<Rightarrow> alphabet_pass zipf api opts freq_thr banned re_word letters st))"

subsection \<open>The main loop\<close>

text \<open>
  The variables of \<open>main\<close> that the loop changes. \<open>calls\<close> is the number of calls of the
  service made so far and \<open>passes\<close> the number of calls of \<open>alphabet_pass\<close>: the source
  has neither, they record what the run did.
\<close>

record main_state =
  final_words :: "string fset"
  out_fh :: "string list"
  freq_current :: real
  cycle :: int
  calls :: nat
  passes :: nat

datatype stop = MaxCycles | TargetReached | Stalled

datatype control = Continue | Break stop

definition alphabet :: string where
  "alphabet = ''abcdefghijklmnopqrstuvwxyz''"

text \<open>One iteration of \<open>while True:\<close>, up to its \<open>break\<close> or its way back to the top.\<close>

definition cycle_step ::
  "(string \<Rightarrow> real) \<Rightarrow> (nat \<Rightarrow> api_result) \<Rightarrow> opts \<Rightarrow> string set \<Rightarrow> pattern
     \<Rightarrow> main_state \<Rightarrow> py_error + control \<times> main_state"
where
  "cycle_step zipf api opts banned re_word st =
     (let st1 = st\<lparr>cycle := cycle st + 1\<rparr> in
      if max_cycles opts \<noteq> 0 \<and> cycle st1 > max_cycles opts then Inr (Break MaxCycles, st1)
      else
        (case alphabet_pass zipf api opts (freq_current st1) banned re_word alphabet
                (calls st1, final_words st1, out_fh st1, 0) of
           Inl e \<Rightarrow> Inl e
         | Inr (k, ws, out, added) \<Rightarrow>
             (let st2 = st1\<lparr>final_words := ws, out_fh := out, calls := k,
                             passes := passes st1 + 1\<rparr> in
              if target_size opts \<noteq> 0 \<and> int (fcard (final_words st2)) \<ge> target_size opts
              then Inr (Break TargetReached, st2)
              else if added = 0 then
                (if \<not> auto_loosen opts \<or> freq_current st2 - loosen_step opts < min_freq opts
                 then Inr (Break Stalled, st2)
                 else Inr (Continue,
                           st2\<lparr>freq_current := freq_current st2 - loosen_step opts\<rparr>))
              else Inr (Continue, st2))))"

text \<open>
  The loop itself. With \<open>--max-cycles 0\<close> the guard is off and the loop need not end,
  so the result is optional: \<open>None\<close> is a run that never leaves the loop.
\<close>

partial_function (option) main_loop ::
  "(string \<Rightarrow> real) \<Rightarrow> (nat \<Rightarrow> api_result) \<Rightarrow> opts \<Rightarrow> string set \<Rightarrow> pattern
     \<Rightarrow> main_state \<Rightarrow> (py_error + stop \<times> main_state) option"
where
  "main_loop zipf api opts banned re_word st =
     (case cycle_step zipf api opts banned re_word st of
        Inl e \<Rightarrow> Some (Inl e)
      | Inr (Break reason, st') \<Rightarrow> Some (Inr (reason, st'))
      | Inr (Continue, st') \<Rightarrow> main_loop zipf api opts banned re_word st')"

text \<open>The state after the \<open>n\<close>-th cycle, when the loop gets that far.\<close>

fun after_cycle ::
  "(string \<Rightarrow> real) \<Rightarrow> (nat \<Rightarrow> api_result) \<Rightarrow> opts \<Rightarrow> string set \<Rightarrow> pattern
     \<Rightarrow> nat \<Rightarrow> main_state \<Rightarrow> main_state option"
where
  "after_cycle zipf api opts banned re_word 0 st = Some st"
| "after_cycle zipf api opts banned re_word (Suc n) st =
     (case cycle_step zipf api opts banned re_word st of
        Inl e \<Rightarrow> None
      | Inr (Break reason, st') \<Rightarrow> (if n = 0 then Some st' else None)
      | Inr (Continue, st') \<Rightarrow> after_cycle zipf api opts banned re_word n st')"

subsection \<open>Trimming\<close>

text \<open>
  \<open>xs[:n]\<close> for a Python integer \<open>n\<close>, and \<open>list.sort(reverse=True)\<close>, which keeps the
  order of equal elements. \<open>trim_to_target\<close> reads its set argument in the order a Python
  set happens to be iterated: that order is the list \<open>words\<close>, without repetitions.
\<close>

definition py_prefix :: "int \<Rightarrow> 'a list \<Rightarrow> 'a list" where
  "py_prefix n xs = (if 0 \<le> n then take (nat n) xs else take (length xs - nat (- n)) xs)"

definition sort_reverse :: "'a::linorder list \<Rightarrow> 'a list" where
  "sort_reverse xs = rev (sort (rev xs))"

definition trim_to_target ::
  "(string \<Rightarrow> real) \<Rightarrow> string list \<Rightarrow> int \<Rightarrow> nat \<Rightarrow> nat \<Rightarrow> string list"
where
  "trim_to_target zipf words target min_len max_len =
     (let re_word = make_word_re min_len max_len;
          scored = map (\<lambda>w. (zipf w, w)) (filter (fullmatch re_word) words)
      in map snd (py_prefix target (sort_reverse scored)))"

subsection \<open>\<open>main\<close>: setting up, looping, trimming the surplus\<close>

fun join :: "string \<Rightarrow> string list \<Rightarrow> string" where
  "join sep [] = []"
| "join sep [x] = x"
| "join sep (x # y # ys) = x @ sep @ join sep (y # ys)"

definition newline :: string where
  "newline = [char_of (10::nat)]"

definition DEFAULT_BANNED :: "string list" where
  "DEFAULT_BANNED = [''cunt'', ''damn'', ''shit'', ''fuck'', ''dick'', ''twat'', ''piss'',
     ''arse'', ''crap'', ''bitch'', ''bastard'', ''bollock'', ''bollocks'', ''bugger'',
     ''wank'', ''prick'']"

text \<open>
  After the loop \<open>main\<close> trims an overshoot: it rewrites the file with the kept words,
  sorted, and keeps them as \<open>final_words\<close>. \<open>order\<close> is the order in which Python
  iterates the set.
\<close>

definition trim_surplus ::
  "(string \<Rightarrow> real) \<Rightarrow> opts \<Rightarrow> (string fset \<Rightarrow> string list) \<Rightarrow> main_state \<Rightarrow> main_state"
where
  "trim_surplus zipf opts order st =
     (if target_size opts \<noteq> 0 \<and> int (fcard (final_words st)) > target_size opts then
        (let kept = trim_to_target zipf (order (final_words st)) (target_size opts)
                      (min_length opts) (max_length opts)
         in st\<lparr>out_fh := [join newline (sort kept) @ newline],
                final_words := fset_of_list kept\<rparr>)
      else st)"

text \<open>
  \<open>banned_lines\<close> are the lines of \<open>--banned-file\<close> (none without the option) and
  \<open>resumed\<close> the lines of an output file that exists already.
\<close>

definition main ::
  "(string \<Rightarrow> real) \<Rightarrow> (nat \<Rightarrow> api_result) \<Rightarrow> (string fset \<Rightarrow> string list) \<Rightarrow> opts
     \<Rightarrow> string list \<Rightarrow> string list \<Rightarrow> (py_error + stop \<times> main_state) option"
where
  "main zipf api order opts banned_lines resumed =
     (let re_word = make_word_re (min_length opts) (max_length opts);
          banned = set DEFAULT_BANNED \<union> set (map (\<lambda>w. lower (strip w)) banned_lines);
          st = \<lparr>final_words = fset_of_list (filter (\<lambda>w. w \<noteq> []) (map strip resumed)),
                out_fh = [], freq_current = freq_threshold opts, cycle = 0, calls = 0,
                passes = 0\<rparr>
      in map_option (map_sum id (\<lambda>(reason, st'). (reason, trim_surplus zipf opts order st')))
           (main_loop zipf api opts banned re_word st))"

section \<open>The refinement pipeline (\<open>wordlist_openai_improver.py\<close>)\<close>

definition BANNED :: "string list" where
  "BANNED = [''cunt'', ''dammit'', ''damn'', ''damned'', ''dick'', ''dicks'', ''shit'',
     ''shits'', ''fucker'', ''fucking'', ''fuck'', ''fucks'', ''asshole'', ''twat'',
     ''bastard'', ''bollocks'', ''bugger'']"

definition RE_NON_ALPHA_search :: "string \<Rightarrow> bool" where
  \<comment> \<open>\<open>[^a-zA-Z]\<close> is found somewhere in the word\<close>
  "RE_NON_ALPHA_search w \<longleftrightarrow> list_ex (\<lambda>c. \<not> (is_az c \<or> is_AZ c)) w"

definition PLACEHOLDER_RE_match :: "string \<Rightarrow> bool" where
  \<comment> \<open>\<open>^_missing_[a-z]+_$\<close>; \<open>$\<close> also matches before one final newline\<close>
  "PLACEHOLDER_RE_match w \<longleftrightarrow>
     (let v = (if w \<noteq> [] \<and> code (last w) = 10 then butlast w else w);
          body = butlast (drop 9 v)
      in take 9 v = ''_missing_'' \<and> 10 < length v \<and> last v = CHR ''_''
         \<and> list_all is_az body)"

definition placeholder :: "string \<Rightarrow> string" where
  "placeholder w = ''_missing_'' @ w @ ''_''"

definition obvious_bad :: "(string \<Rightarrow> real) \<Rightarrow> string \<Rightarrow> real \<Rightarrow> bool" where
  "obvious_bad zipf w freq_thr \<longleftrightarrow>
     w \<in> set BANNED \<or> RE_NON_ALPHA_search w \<or> isupper w \<or> zipf w < freq_thr"

text \<open>
  \<open>chunked\<close> walks \<open>range(0, len(seq), n)\<close>: a step of zero raises \<open>ValueError\<close> and a
  negative step gives no batch.
\<close>

fun chunks :: "nat \<Rightarrow> 'a list \<Rightarrow> 'a list list" where
  \<comment> \<open>slices of \<open>Suc m\<close> elements, the last one shorter\<close>
  "chunks m [] = []"
| "chunks m (x # xs) = (x # take m xs) # chunks m (drop m xs)"

definition chunked :: "'a list \<Rightarrow> int \<Rightarrow> py_error + 'a list list" where
  "chunked seq n =
     (if n = 0 then Inl ValueError
      else if n < 0 then Inr []
      else Inr (chunks (nat n - 1) seq))"

definition py_remove :: "'a \<Rightarrow> 'a list \<Rightarrow> py_error + 'a list" where
  \<comment> \<open>\<open>list.remove\<close>: the first occurrence goes, \<open>ValueError\<close> when there is none\<close>
  "py_remove x xs = (if x \<in> set xs then Inr (remove1 x xs) else Inl ValueError)"

text \<open>
  The Bloom filter answers \<open>in\<close> with yes for everything added to it, and may answer yes
  for other words. It is modelled by the set of the words added; \<open>fp\<close> tells which other
  words it takes for members at that content.
\<close>

definition in_bloom :: "(string fset \<Rightarrow> string \<Rightarrow> bool) \<Rightarrow> string fset \<Rightarrow> string \<Rightarrow> bool" where
  "in_bloom fp bloom w \<longleftrightarrow> w |\<in>| bloom \<or> fp bloom w"

text \<open>
  What the classifier sends back for a batch. A call raises \<open>OpenAIError\<close> or gives a
  reply; the reply has arguments that do not parse as JSON (or no function call at all),
  arguments that parse to something other than the object the code reads, or a list of
  results. A result that lacks a field has the default the code reads for it:
  \<open>""\<close>, \<open>True\<close>, \<open>""\<close>, \<open>[]\<close>.
\<close>

record verdict =
  rec_word :: string
  rec_keep :: bool
  rec_reason :: string
  rec_replacements :: "string list"

datatype arguments = Unparsable | Misshapen | Payload "verdict list"

datatype chat_result = ChatError | ChatReply arguments

record refine_opts =
  batch_size :: int
  refine_freq_threshold :: real
  refine_max_retries :: int

record refine_state =
  words :: "string list"
  wordset :: "string fset"
  bloom :: "string fset"
  placeholders :: "string list"
  log_rows :: "(string \<times> string \<times> string) list"
  api_calls :: nat

subsection \<open>The purge of banned words\<close>

definition purge_one :: "refine_state \<Rightarrow> string \<Rightarrow> py_error + refine_state" where
  "purge_one st bw =
     (case py_remove bw (words st) of
        Inl e \<Rightarrow> Inl e
      | Inr ws \<Rightarrow>
          (let ph = placeholder bw in
           Inr (st\<lparr>words := ws @ [ph],
                    wordset := finsert ph (wordset st |-| {|bw|}),
                    bloom := finsert ph (bloom st),
                    placeholders := placeholders st @ [ph]\<rparr>)))"

fun purge :: "refine_state \<Rightarrow> string list \<Rightarrow> py_error + refine_state" where
  "purge st [] = Inr st"
| "purge st (bw # bws) =
     (case purge_one st bw of Inl e \<Rightarrow> Inl e | Inr st' \<Rightarrow> purge st' bws)"

subsection \<open>One batch\<close>

text \<open>
  \<open>api k batch\<close> is the outcome of the \<open>k\<close>-th call of the run, made for \<open>batch\<close>. The
  retry loop calls up to \<open>max_retries\<close> times and leaves the program when every call
  has raised.
\<close>

fun call_classifier ::
  "(nat \<Rightarrow> string list \<Rightarrow> chat_result) \<Rightarrow> string list \<Rightarrow> nat \<Rightarrow> nat
     \<Rightarrow> (py_error + arguments) \<times> nat"
where
  "call_classifier api batch k 0 =
     (Inl (SystemExit ''Too many consecutive OpenAI errors; aborting.''), k)"
| "call_classifier api batch k (Suc n) =
     (case api k batch of
        ChatReply a \<Rightarrow> (Inr a, Suc k)
      | ChatError \<Rightarrow> call_classifier api batch (Suc k) n)"

definition suitable ::
  "(string \<Rightarrow> real) \<Rightarrow> (string fset \<Rightarrow> string \<Rightarrow> bool) \<Rightarrow> real \<Rightarrow> string fset \<Rightarrow> string \<Rightarrow> bool"
where
  "suitable zipf fp freq_thr bl alt \<longleftrightarrow>
     alt \<noteq> [] \<and> isalpha alt \<and> \<not> in_bloom fp bl alt \<and> \<not> obvious_bad zipf alt freq_thr"

definition apply_verdict ::
  "(string \<Rightarrow> real) \<Rightarrow> (string fset \<Rightarrow> string \<Rightarrow> bool) \<Rightarrow> real \<Rightarrow> refine_state \<Rightarrow> verdict
     \<Rightarrow> py_error + refine_state"
where
  "apply_verdict zipf fp freq_thr st rec =
     (let w = lower (rec_word rec) in
      if w |\<notin>| wordset st then Inr st
      else if rec_keep rec then Inr st
      else
        (case py_remove w (words st) of
           Inl e \<Rightarrow> Inl e
         | Inr ws \<Rightarrow>
             (case find (suitable zipf fp freq_thr (bloom st))
                     (map lower (rec_replacements rec)) of
                Some alt \<Rightarrow>
                  Inr (st\<lparr>words := ws @ [alt],
                           wordset := finsert alt (wordset st |-| {|w|}),
                           bloom := finsert alt (bloom st),
                           log_rows := log_rows st @ [(w, alt, rec_reason rec)]\<rparr>)
              | None \<Rightarrow>
                  (let ph = placeholder w in
                   Inr (st\<lparr>words := ws @ [ph],
                            wordset := finsert ph (wordset st |-| {|w|}),
                            bloom := finsert ph (bloom st),
                            placeholders := placeholders st @ [ph],
                            log_rows := log_rows st
                              @ [(w, ph, rec_reason rec @ '' (placeholder)'')]\<rparr>)))))"

fun apply_results ::
  "(string \<Rightarrow> real) \<Rightarrow> (string fset \<Rightarrow> string \<Rightarrow> bool) \<Rightarrow> real \<Rightarrow> refine_state \<Rightarrow> verdict list
     \<Rightarrow> py_error + refine_state"
where
  "apply_results zipf fp freq_thr st [] = Inr st"
| "apply_results zipf fp freq_thr st (rec # recs) =
     (case apply_verdict zipf fp freq_thr st rec of
        Inl e \<Rightarrow> Inl e
      | Inr st' \<Rightarrow> apply_results zipf fp freq_thr st' recs)"

definition process_batch ::
  "(string \<Rightarrow> real) \<Rightarrow> (string fset \<Rightarrow> string \<Rightarrow> bool) \<Rightarrow> (nat \<Rightarrow> string list \<Rightarrow> chat_result)
     \<Rightarrow> refine_opts \<Rightarrow> refine_state \<Rightarrow> string list \<Rightarrow> py_error + refine_state"
where
  "process_batch zipf fp api ropts st batch =
     (case call_classifier api batch (api_calls st) (nat (refine_max_retries ropts)) of
        (Inl e, k) \<Rightarrow> Inl e
      | (Inr Unparsable, k) \<Rightarrow> Inr (st\<lparr>api_calls := k\<rparr>)
      | (Inr Misshapen, k) \<Rightarrow> Inl AttributeError
      | (Inr (Payload recs), k) \<Rightarrow>
          apply_results zipf fp (refine_freq_threshold ropts) (st\<lparr>api_calls := k\<rparr>) recs)"

fun process_batches ::
  "(string \<Rightarrow> real) \<Rightarrow> (string fset \<Rightarrow> string \<Rightarrow> bool) \<Rightarrow> (nat \<Rightarrow> string list \<Rightarrow> chat_result)
     \<Rightarrow> refine_opts \<Rightarrow> refine_state \<Rightarrow> string list list \<Rightarrow> py_error + refine_state"
where
  "process_batches zipf fp api ropts st [] = Inr st"
| "process_batches zipf fp api ropts st (batch # batches) =
     (case process_batch zipf fp api ropts st batch of
        Inl e \<Rightarrow> Inl e
      | Inr st' \<Rightarrow> process_batches zipf fp api ropts st' batches)"

subsection \<open>Filling the placeholders\<close>

text \<open>
  \<open>pool_iter\<close> is one iterator over the alphabetic words of the frequency-ordered pool:
  each placeholder takes up the search where the one before left it.
\<close>

fun next_candidate ::
  "(string \<Rightarrow> real) \<Rightarrow> (string fset \<Rightarrow> string \<Rightarrow> bool) \<Rightarrow> real \<Rightarrow> string fset \<Rightarrow> string list
     \<Rightarrow> string option \<times> string list"
where
  "next_candidate zipf fp freq_thr bl [] = (None, [])"
| "next_candidate zipf fp freq_thr bl (c # pool_iter) =
     (if \<not> in_bloom fp bl c \<and> \<not> obvious_bad zipf c freq_thr then (Some c, pool_iter)
      else next_candidate zipf fp freq_thr bl pool_iter)"

fun fill_placeholders ::
  "(string \<Rightarrow> real) \<Rightarrow> (string fset \<Rightarrow> string \<Rightarrow> bool) \<Rightarrow> real \<Rightarrow> string list \<Rightarrow> string fset
     \<Rightarrow> string list \<Rightarrow> string list \<times> string fset"
where
  "fill_placeholders zipf fp freq_thr pool_iter bl [] = ([], bl)"
| "fill_placeholders zipf fp freq_thr pool_iter bl (w # ws) =
     (if PLACEHOLDER_RE_match w then
        (case next_candidate zipf fp freq_thr bl pool_iter of
           (Some c, rest) \<Rightarrow>
             (case fill_placeholders zipf fp freq_thr rest (finsert c bl) ws of
                (ws', bl') \<Rightarrow> (c # ws', bl'))
         | (None, rest) \<Rightarrow>
             (case fill_placeholders zipf fp freq_thr rest bl ws of
                (ws', bl') \<Rightarrow> (w # ws', bl')))
      else
        (case fill_placeholders zipf fp freq_thr pool_iter bl ws of
           (ws', bl') \<Rightarrow> (w # ws', bl')))"

subsection \<open>\<open>refine_wordlist\<close>\<close>

text \<open>
  \<open>input_lines\<close> are the lines of the input file and \<open>common_pool\<close> is
  \<open>top_n_list("en", 50000)\<close>. \<open>refine_run\<close> is the function up to its last length check
  and gives the state that check sees; \<open>refine_wordlist\<close> adds the check and gives the
  lines of the output file.
\<close>

definition refine_run ::
  "(string \<Rightarrow> real) \<Rightarrow> (string fset \<Rightarrow> string \<Rightarrow> bool) \<Rightarrow> (nat \<Rightarrow> string list \<Rightarrow> chat_result)
     \<Rightarrow> string list \<Rightarrow> refine_opts \<Rightarrow> string list \<Rightarrow> py_error + refine_state"
where
  "refine_run zipf fp api common_pool ropts input_lines =
     (let ws = map (\<lambda>w. lower (strip w)) (filter (\<lambda>w. strip w \<noteq> []) input_lines) in
      if length ws \<noteq> 65536 then Inl (SystemExit ''Input list needs 65 536 words'')
      else
        (let st0 = \<lparr>words = ws, wordset = fset_of_list ws, bloom = fset_of_list ws,
                     placeholders = [], log_rows = [], api_calls = 0\<rparr> in
         case purge st0 (filter (\<lambda>bw. bw |\<in>| wordset st0) BANNED) of
           Inl e \<Rightarrow> Inl e
         | Inr st1 \<Rightarrow>
             (let candidates =
                    filter (\<lambda>w. \<not> obvious_bad zipf w (refine_freq_threshold ropts)
                                \<and> \<not> PLACEHOLDER_RE_match w) (words st1) in
              case chunked candidates (batch_size ropts) of
                Inl e \<Rightarrow> Inl e
              | Inr batches \<Rightarrow>
                  (case process_batches zipf fp api ropts st1 batches of
                     Inl e \<Rightarrow> Inl e
                   | Inr st2 \<Rightarrow>
                       if placeholders st2 \<noteq> [] then
                         (case fill_placeholders zipf fp (refine_freq_threshold ropts)
                                 (filter isalpha common_pool) (bloom st2) (words st2) of
                            (ws', bl') \<Rightarrow> Inr (st2\<lparr>words := ws', bloom := bl'\<rparr>))
                       else Inr st2))))"

definition refine_wordlist ::
  "(string \<Rightarrow> real) \<Rightarrow> (string fset \<Rightarrow> string \<Rightarrow> bool) \<Rightarrow> (nat \<Rightarrow> string list \<Rightarrow> chat_result)
     \<Rightarrow> string list \<Rightarrow> refine_opts \<Rightarrow> string list \<Rightarrow> py_error + string list"
where
  "refine_wordlist zipf fp api common_pool ropts input_lines =
     (case refine_run zipf fp api common_pool ropts input_lines of
        Inl e \<Rightarrow> Inl e
      | Inr st \<Rightarrow>
          if length (words st) \<noteq> 65536 then Inl (SystemExit ''Length drifted'')
          else Inr (sort (words st)))"

section \<open>The scripts that bring the dictionary to size\<close>

subsection \<open>Numbered words\<close>

text \<open>\<open>f"word{idx:05d}"\<close>: the decimal digits of \<open>idx\<close>, filled with zeros to five places.\<close>

definition digit :: "nat \<Rightarrow> char" where
  "digit d = char_of (48 + d)"

fun decimal :: "nat \<Rightarrow> string" where
  "decimal n = (if n < 10 then [digit n] else decimal (n div 10) @ [digit (n mod 10)])"

declare decimal.simps [simp del]

definition zfill :: "nat \<Rightarrow> string \<Rightarrow> string" where
  "zfill width s = replicate (width - length s) (CHR ''0'') @ s"

definition numbered_word :: "nat \<Rightarrow> string" where
  "numbered_word idx = ''word'' @ zfill 5 (decimal idx)"

text \<open>Reading a numbered word back gives its number, so no two numbers share a word.\<close>

definition digit_value :: "char \<Rightarrow> nat" where
  "digit_value c = code c - 48"

definition read_decimal :: "string \<Rightarrow> nat" where
  "read_decimal s = foldl (\<lambda>acc c. 10 * acc + digit_value c) 0 s"

lemma digit_value_digit: "d < 10 \<Longrightarrow> digit_value (digit d) = d"
  by (simp add: digit_value_def digit_def code_def)

lemma read_decimal_snoc: "read_decimal (s @ [c]) = 10 * read_decimal s + digit_value c"
  by (simp add: read_decimal_def)

lemma read_decimal_decimal: "read_decimal (decimal n) = n"
proof (induction n rule: decimal.induct)
  case (1 n)
  show ?case
  proof (cases "n < 10")
    case True
    then show ?thesis
      by (subst decimal.simps) (simp add: read_decimal_def digit_value_digit)
  next
    case False
    with 1 have "read_decimal (decimal (n div 10)) = n div 10" by simp
    with False show ?thesis
      by (subst decimal.simps) (simp add: read_decimal_snoc digit_value_digit)
  qed
qed

lemma read_decimal_zeros: "read_decimal (replicate k (CHR ''0'') @ s) = read_decimal s"
proof -
  have "foldl (\<lambda>acc c. 10 * acc + digit_value c) 0 (replicate k (CHR ''0'')) = 0"
    by (induction k) (simp_all add: digit_value_def code_def)
  then show ?thesis by (simp add: read_decimal_def)
qed

lemma read_numbered_word: "read_decimal (drop 4 (numbered_word idx)) = idx"
  by (simp add: numbered_word_def zfill_def read_decimal_zeros read_decimal_decimal)

lemma numbered_word_inj: "numbered_word i = numbered_word j \<Longrightarrow> i = j"
  by (metis read_numbered_word)

lemma later_numbers_fewer:
  assumes "numbered_word idx \<in> set unique_words"
  shows "card {w \<in> set unique_words. \<exists>j\<ge>Suc idx. w = numbered_word j}
       < card {w \<in> set unique_words. \<exists>j\<ge>idx. w = numbered_word j}"
proof (rule psubset_card_mono)
  show "finite {w \<in> set unique_words. \<exists>j\<ge>idx. w = numbered_word j}" by simp
  have "numbered_word idx \<notin> {w \<in> set unique_words. \<exists>j\<ge>Suc idx. w = numbered_word j}"
    using numbered_word_inj by fastforce
  moreover have "numbered_word idx \<in> {w \<in> set unique_words. \<exists>j\<ge>idx. w = numbered_word j}"
    using assms by auto
  moreover have "{w \<in> set unique_words. \<exists>j\<ge>Suc idx. w = numbered_word j}
      \<subseteq> {w \<in> set unique_words. \<exists>j\<ge>idx. w = numbered_word j}"
    using Suc_leD by blast
  ultimately show "{w \<in> set unique_words. \<exists>j\<ge>Suc idx. w = numbered_word j}
      \<subset> {w \<in> set unique_words. \<exists>j\<ge>idx. w = numbered_word j}"
    by blast
qed

function numbered_fill :: "nat \<Rightarrow> string list \<Rightarrow> string list" where
  "numbered_fill idx unique_words =
     (if length unique_words < 65536 then
        (let new_word = numbered_word idx in
         if new_word \<notin> set unique_words
         then numbered_fill (Suc idx) (unique_words @ [new_word])
         else numbered_fill (Suc idx) unique_words)
      else unique_words)"
  by pat_completeness auto
termination
proof (relation "measures [\<lambda>(idx, unique_words). 65536 - length unique_words,
                           \<lambda>(idx, unique_words).
                              card {w \<in> set unique_words. \<exists>j\<ge>idx. w = numbered_word j}]")
  show "wf (measures [\<lambda>(idx, unique_words). 65536 - length unique_words,
                           \<lambda>(idx, unique_words).
                              card {w \<in> set unique_words. \<exists>j\<ge>idx. w = numbered_word j}])"
    by simp
next
  fix idx :: nat and unique_words :: "string list" and new_word
  assume "length unique_words < 65536"
  then have "65536 - length (unique_words @ [new_word]) < 65536 - length unique_words"
    by simp
  then show "((Suc idx, unique_words @ [new_word]), idx, unique_words)
        \<in> measures [\<lambda>(idx, unique_words). 65536 - length unique_words,
                           \<lambda>(idx, unique_words).
                              card {w \<in> set unique_words. \<exists>j\<ge>idx. w = numbered_word j}]"
    by simp
next
  fix idx :: nat and unique_words :: "string list" and new_word
  assume "new_word = numbered_word idx" "\<not> new_word \<notin> set unique_words"
  then have "numbered_word idx \<in> set unique_words" by simp
  from later_numbers_fewer[OF this]
  show "((Suc idx, unique_words), idx, unique_words)
        \<in> measures [\<lambda>(idx, unique_words). 65536 - length unique_words,
                           \<lambda>(idx, unique_words).
                              card {w \<in> set unique_words. \<exists>j\<ge>idx. w = numbered_word j}]"
    by simp
qed

declare numbered_fill.simps [simp del]

subsection \<open>Reading a word file\<close>

definition read_words :: "string list \<Rightarrow> string list" where
  \<comment> \<open>\<open>[line.strip() for line in f if line.strip()]\<close>\<close>
  "read_words file_lines = filter (\<lambda>w. w \<noteq> []) (map strip file_lines)"

text \<open>
  Removing duplicates in order. \<open>seen\<close> is the set of the words of \<open>unique_words\<close> at
  every moment, so the list stands for both. \<open>create_final_dictionary.py\<close> also asks the
  word to be alphabetic, \<open>fix_dictionary_duplicates.py\<close> asks nothing.
\<close>

fun dedupe :: "(string \<Rightarrow> bool) \<Rightarrow> string list \<Rightarrow> string list \<Rightarrow> string list" where
  "dedupe wanted unique_words [] = unique_words"
| "dedupe wanted unique_words (w # ws) =
     dedupe wanted (if w \<notin> set unique_words \<and> wanted w then unique_words @ [w]
                    else unique_words) ws"

subsection \<open>\<open>create_final_dictionary.py\<close>\<close>

definition suffixes :: "string list" where
  "suffixes = [''ly'', ''ful'', ''less'', ''ness'', ''ment'', ''able'', ''ible'', ''ish'',
     ''ize'', ''ify'']"

definition prefixes :: "string list" where
  "prefixes = [''re'', ''un'', ''pre'', ''post'', ''over'', ''under'', ''out'', ''up'',
     ''down'', ''anti'']"

definition colors :: "string list" where
  "colors = [''red'', ''blue'', ''green'', ''black'', ''white'', ''yellow'', ''pink'',
     ''brown'', ''gray'', ''orange'']"

definition objects :: "string list" where
  "objects = [''box'', ''ball'', ''hat'', ''bag'', ''cup'', ''pen'', ''book'', ''door'',
     ''key'', ''star'']"

text \<open>
  The inner loop over the suffixes (or prefixes) of one base word, given the candidates in
  order, and the outer loop over the base words.
\<close>

fun try_candidates :: "string list \<Rightarrow> string list \<Rightarrow> string list" where
  "try_candidates [] unique_words = unique_words"
| "try_candidates (candidate # rest) unique_words =
     (if candidate \<notin> set unique_words \<and> length candidate \<le> 12 then
        (if length (unique_words @ [candidate]) \<ge> 65536 then unique_words @ [candidate]
         else try_candidates rest (unique_words @ [candidate]))
      else try_candidates rest unique_words)"

fun each_base :: "(string \<Rightarrow> string list) \<Rightarrow> string list \<Rightarrow> string list \<Rightarrow> string list" where
  "each_base candidates [] unique_words = unique_words"
| "each_base candidates (base # bases) unique_words =
     (if length unique_words \<ge> 65536 then unique_words
      else each_base candidates bases (try_candidates (candidates base) unique_words))"

fun each_object :: "string \<Rightarrow> string list \<Rightarrow> string list \<Rightarrow> string list" where
  "each_object color [] unique_words = unique_words"
| "each_object color (obj # objs) unique_words =
     (if length unique_words \<ge> 65536 then unique_words
      else each_object color objs
             (if color @ obj \<notin> set unique_words then unique_words @ [color @ obj]
              else unique_words))"

fun each_color :: "string list \<Rightarrow> string list \<Rightarrow> string list" where
  "each_color [] unique_words = unique_words"
| "each_color (color # rest) unique_words =
     each_color rest (each_object color objects unique_words)"

text \<open>The lines that \<open>main\<close> writes, from the lines of the word list it reads.\<close>

definition create_final_dictionary :: "string list \<Rightarrow> string list" where
  "create_final_dictionary file_lines =
     (let unique_words = dedupe isalpha [] (read_words file_lines);
          filled =
            (if length unique_words < 65536 then
               (let base_words = take 10000 unique_words;
                    with_suffixes =
                      each_base (\<lambda>base. map (\<lambda>suffix. base @ suffix) suffixes)
                        base_words unique_words;
                    with_prefixes =
                      (if length with_suffixes < 65536
                       then each_base (\<lambda>base. map (\<lambda>prefix. prefix @ base) prefixes)
                              base_words with_suffixes
                       else with_suffixes)
                in if length with_prefixes < 65536 then each_color colors with_prefixes
                   else with_prefixes)
             else unique_words)
      in take 65536 filled)"

subsection \<open>\<open>scripts/fix_dictionary_size.py\<close>\<close>

fun replacement_words :: "string list \<Rightarrow> nat \<Rightarrow> string list \<Rightarrow> string list \<Rightarrow> string list" where
  "replacement_words current_words words_needed found [] = found"
| "replacement_words current_words words_needed found (line # rest) =
     (let w = strip line in
      if w \<noteq> [] \<and> w \<notin> set current_words \<and> length w \<ge> 2 \<and> isalpha w \<and> is_ascii w then
        (if length (found @ [w]) \<ge> words_needed then found @ [w]
         else replacement_words current_words words_needed (found @ [w]) rest)
      else replacement_words current_words words_needed found rest)"

text \<open>
  The lines written to the dictionary file, from the lines of the dictionary and of the
  frequency list; \<open>None\<close> when the function returns without writing.
\<close>

definition fix_dictionary_size :: "string list \<Rightarrow> string list \<Rightarrow> string list option" where
  "fix_dictionary_size dict_lines freq_lines =
     (let current_words = read_words dict_lines;
          words_needed = 65536 - int (length current_words)
      in if words_needed \<le> 0 then None
         else
           (let found = replacement_words current_words (nat words_needed) [] freq_lines;
                final_words = current_words @ take (nat words_needed) found
            in if \<not> distinct final_words then None else Some final_words))"

subsection \<open>\<open>fix_dictionary_duplicates.py\<close>\<close>

definition fix_dictionary_duplicates :: "string list \<Rightarrow> string list" where
  "fix_dictionary_duplicates file_lines =
     (let unique_words = dedupe (\<lambda>w. True) [] (read_words file_lines);
          filled = (if length unique_words < 65536 then numbered_fill 0 unique_words
                    else unique_words)
      in take 65536 filled)"

subsection \<open>The last lines of \<open>create_readable_dictionary.py\<close>\<close>

text \<open>
  \<open>top_words\<close> are the words of the best 65,536 scored candidates, fewer when fewer
  candidates passed the filters.
\<close>

function pad_to_size :: "string list \<Rightarrow> string list" where
  "pad_to_size output_words =
     (if length output_words < 65536
      then pad_to_size (output_words @ [numbered_word (length output_words)])
      else output_words)"
  by pat_completeness auto
termination
  by (relation "measure (\<lambda>output_words. 65536 - length output_words)") auto

declare pad_to_size.simps [simp del]

section \<open>A sample run of the controller\<close>

text \<open>
  A small configuration on which the theorems below are exercised: three words with known
  frequencies, and a service whose first answer offers two of them and which has nothing
  more to say afterwards.
\<close>

definition sample_zipf :: "string \<Rightarrow> real" where
  "sample_zipf w = (if w = ''apple'' then 4 else if w = ''angle'' then 3 else 2)"

definition sample_api :: "nat \<Rightarrow> api_result" where
  "sample_api k = (if k = 0 then Content (''Apple'' @ newline @ '' angle '') else Content [])"

definition sample_opts :: opts where
  "sample_opts = \<lparr>target_size = 2, max_cycles = 5, freq_threshold = 7/2, max_retries = 2,
     per_letter_max = 10, min_length = 4, max_length = 7, allow_proper_nouns = False,
     auto_loosen = True, loosen_step = 1/2, min_freq = 5/2\<rparr>"

definition sample_state :: main_state where
  "sample_state = \<lparr>final_words = {||}, out_fh = [], freq_current = 7/2, cycle = 0,
     calls = 0, passes = 0\<rparr>"

text \<open>Two iteration orders of a set, and a state that overshoots the target of the sample.\<close>

definition sample_order_up :: "string fset \<Rightarrow> string list" where
  "sample_order_up S = sorted_list_of_fset S"

definition sample_order_down :: "string fset \<Rightarrow> string list" where
  "sample_order_down S = rev (sorted_list_of_fset S)"

definition sample_overshoot :: main_state where
  "sample_overshoot = \<lparr>final_words = {|''angle'', ''azure'', ''apple'', ''black''|}, out_fh = [],
     freq_current = 3, cycle = 3, calls = 80, passes = 3\<rparr>"

section \<open>A sample run of the refinement pipeline\<close>

text \<open>
  A classifier that keeps every word it is shown, one whose replies never parse, one that
  fails twice before it replies, and one that is down; a Bloom filter without false
  positives; a frequency list that knows every word as frequent.
\<close>

definition keep_all :: "nat \<Rightarrow> string list \<Rightarrow> chat_result" where
  "keep_all k batch =
     ChatReply (Payload (map (\<lambda>w. \<lparr>rec_word = w, rec_keep = True, rec_reason = [],
                                     rec_replacements = []\<rparr>) batch))"

definition no_fp :: "string fset \<Rightarrow> string \<Rightarrow> bool" where
  "no_fp bl w = False"

definition garbled :: "nat \<Rightarrow> string list \<Rightarrow> chat_result" where
  "garbled k batch = ChatReply Unparsable"

definition flaky :: "nat \<Rightarrow> string list \<Rightarrow> chat_result" where
  "flaky k batch = (if k < 2 then ChatError else ChatReply Unparsable)"

definition always_down :: "nat \<Rightarrow> string list \<Rightarrow> chat_result" where
  "always_down k batch = ChatError"

definition all_frequent :: "string \<Rightarrow> real" where
  "all_frequent w = 5"

definition sample_ropts :: refine_opts where
  "sample_ropts = \<lparr>batch_size = 500, refine_freq_threshold = 7/2, refine_max_retries = 5\<rparr>"

text \<open>
  An input file of 65,536 lines: one banned word, three of the most frequent words of
  English, and 65,532 five-letter words \<open>waaaa\<close>, \<open>waaab\<close>, ... The pool of frequent words
  holds nothing that the file does not hold already.
\<close>

definition nth_word :: "nat \<Rightarrow> string" where
  "nth_word i = CHR ''w'' # map (\<lambda>d. char_of (97 + (i div d) mod 26)) [17576, 676, 26, 1]"

definition sample_lines :: "string list" where
  "sample_lines = [''damn'', ''the'', ''of'', ''and''] @ map nth_word [0..<65532]"

definition sample_pool :: "string list" where
  "sample_pool = [''the'', ''of'', ''and'']"

text \<open>A working list of three words in the middle of a run, and two verdicts on it.\<close>

definition small_state :: refine_state where
  "small_state = \<lparr>words = [''damn'', ''able'', ''zzzq''],
     wordset = {|''damn'', ''able'', ''zzzq''|}, bloom = {|''damn'', ''able'', ''zzzq''|},
     placeholders = [], log_rows = [], api_calls = 0\<rparr>"

definition verdict_remove :: verdict where
  "verdict_remove = \<lparr>rec_word = ''ZZZQ'', rec_keep = False, rec_reason = ''not a word'',
     rec_replacements = [''Able'', ''apple'']\<rparr>"

definition verdict_keep :: verdict where
  "verdict_keep = \<lparr>rec_word = ''able'', rec_keep = True, rec_reason = [],
     rec_replacements = []\<rparr>"

section \<open>Properties of the convergence controller\<close>

subsection \<open>Accepted words stay\<close>

lemma letter_loop_keeps:
  "letter_loop zipf api opts thr banned re_word seen (k, ws, out, added) = Inr (k', ws', out', added')
    \<Longrightarrow> ws |\<subseteq>| ws'"
proof (induction zipf api opts thr banned re_word seen "(k, ws, out, added)" arbitrary: k ws out added
    rule: letter_loop.induct)
  case (1 zipf api opts thr banned re_word seen k ws out added)
  show ?case
  proof (cases "int (fcard seen) < per_letter_max opts")
    case False
    with "1.prems" show ?thesis by simp
  next
    case True
    obtain r kq where q: "query_model api k (nat (max_retries opts)) = (r, kq)"
      by (cases "query_model api k (nat (max_retries opts))")
    show ?thesis
    proof (cases r)
      case (Inl e)
      with "1.prems" True q show ?thesis by simp
    next
      case (Inr content)
      show ?thesis
      proof (cases "content = []")
        case True
        with "1.prems" \<open>int (fcard seen) < per_letter_max opts\<close> q Inr show ?thesis by simp
      next
        case False
        show ?thesis
        proof (cases "new_batch zipf opts thr banned re_word ws seen (splitlines content)")
          case (Inl e)
          with "1.prems" True q Inr False show ?thesis by simp
        next
          case batch: (Inr b)
          show ?thesis
          proof (cases b)
            case Nil
            with "1.prems" True q Inr False batch show ?thesis by simp
          next
            case (Cons w b')
            with "1.prems" True q Inr False batch
            have "letter_loop zipf api opts thr banned re_word (seen |\<union>| fset_of_list (w # b'))
                    (kq, ws |\<union>| fset_of_list (w # b'),
                     out @ map (\<lambda>w. w @ [char_of (10::nat)]) (w # b'), added + length (w # b'))
                  = Inr (k', ws', out', added')"
              by simp
            from "1.hyps"[OF True q[symmetric] Inr False batch Cons this]
            show ?thesis by auto
          qed
        qed
      qed
    qed
  qed
qed

lemma alphabet_pass_keeps:
  "alphabet_pass zipf api opts thr banned re_word letters (k, ws, out, added)
     = Inr (k', ws', out', added') \<Longrightarrow> ws |\<subseteq>| ws'"
proof (induction letters arbitrary: k ws out added)
  case Nil
  then show ?case by simp
next
  case (Cons letter letters)
  show ?case
  proof (cases "int (fcard (ffilter (\<lambda>w. startswith w [letter]) ws)) \<ge> per_letter_max opts")
    case True
    with Cons show ?thesis by (simp add: Let_def)
  next
    case False
    with Cons.prems obtain k1 ws1 out1 added1 where
      l: "letter_loop zipf api opts thr banned re_word (ffilter (\<lambda>w. startswith w [letter]) ws)
            (k, ws, out, added) = Inr (k1, ws1, out1, added1)"
      and r: "alphabet_pass zipf api opts thr banned re_word letters (k1, ws1, out1, added1)
            = Inr (k', ws', out', added')"
      by (auto simp: Let_def split: sum.splits)
    from letter_loop_keeps[OF l] Cons.IH[OF r] show ?thesis by auto
  qed
qed

lemma cycle_step_Inr:
  assumes "cycle_step zipf api opts banned re_word st = Inr (c, st')"
  obtains
    (abort) "max_cycles opts \<noteq> 0" "cycle st + 1 > max_cycles opts" "c = Break MaxCycles"
      "st' = st\<lparr>cycle := cycle st + 1\<rparr>"
  | (pass) k ws out added where
      "\<not> (max_cycles opts \<noteq> 0 \<and> cycle st + 1 > max_cycles opts)"
      "alphabet_pass zipf api opts (freq_current st) banned re_word alphabet
         (calls st, final_words st, out_fh st, 0) = Inr (k, ws, out, added)"
      "final_words st' = ws" "cycle st' = cycle st + 1" "passes st' = passes st + 1"
      "c \<noteq> Break MaxCycles"
      "freq_current st' = freq_current st \<or>
       (c = Continue \<and> \<not> freq_current st - loosen_step opts < min_freq opts \<and>
        freq_current st' = freq_current st - loosen_step opts)"
proof (cases "max_cycles opts \<noteq> 0 \<and> cycle st + 1 > max_cycles opts")
  case True
  with assms have "c = Break MaxCycles" "st' = st\<lparr>cycle := cycle st + 1\<rparr>"
    by (simp_all add: cycle_step_def Let_def)
  with True show ?thesis by (intro abort) simp_all
next
  case False
  with assms obtain k ws out added where
    p: "alphabet_pass zipf api opts (freq_current st) banned re_word alphabet
         (calls st, final_words st, out_fh st, 0) = Inr (k, ws, out, added)"
    by (auto simp: cycle_step_def Let_def split: sum.splits)
  let ?st2 = "st\<lparr>cycle := cycle st + 1, final_words := ws, out_fh := out, calls := k,
                 passes := passes st + 1\<rparr>"
  from assms False p have
    "(c, st') = (Break TargetReached, ?st2) \<or> (c, st') = (Break Stalled, ?st2) \<or>
     (c, st') = (Continue, ?st2) \<or>
     (\<not> freq_current st - loosen_step opts < min_freq opts \<and>
      (c, st') = (Continue, ?st2\<lparr>freq_current := freq_current st - loosen_step opts\<rparr>))"
    by (simp add: cycle_step_def Let_def split: if_splits)
  then have "final_words st' = ws" "cycle st' = cycle st + 1" "passes st' = passes st + 1"
    "c \<noteq> Break MaxCycles"
    "freq_current st' = freq_current st \<or>
       (c = Continue \<and> \<not> freq_current st - loosen_step opts < min_freq opts \<and>
        freq_current st' = freq_current st - loosen_step opts)"
    by auto
  with False p show ?thesis by (intro pass)
qed

lemma cycle_step_keeps:
  assumes "cycle_step zipf api opts banned re_word st = Inr (c, st')"
  shows "final_words st |\<subseteq>| final_words st'"
  using assms
proof (cases rule: cycle_step_Inr)
  case abort
  then show ?thesis by simp
next
  case (pass k ws out added)
  then show ?thesis using alphabet_pass_keeps by blast
qed

lemma after_cycle_keeps:
  "after_cycle zipf api opts banned re_word n st = Some st' \<Longrightarrow>
     final_words st |\<subseteq>| final_words st'"
proof (induction n arbitrary: st)
  case 0
  then show ?case by simp
next
  case (Suc n)
  show ?case
  proof (cases "cycle_step zipf api opts banned re_word st")
    case (Inl e)
    with Suc.prems show ?thesis by simp
  next
    case (Inr r)
    obtain c st1 where r: "r = (c, st1)" by (cases r)
    from Inr r have k: "final_words st |\<subseteq>| final_words st1"
      by (auto dest: cycle_step_keeps)
    show ?thesis
    proof (cases c)
      case Continue
      with Suc.prems Inr r have "after_cycle zipf api opts banned re_word n st1 = Some st'"
        by simp
      from Suc.IH[OF this] k show ?thesis by auto
    next
      case (Break reason)
      with Suc.prems Inr r have "st' = st1" by (simp split: if_splits)
      with k show ?thesis by simp
    qed
  qed
qed


lemma after_cycle_freq:
  assumes "after_cycle zipf api opts banned re_word n st = Some st'"
    and "min_freq opts \<le> freq_current st"
  shows "min_freq opts \<le> freq_current st' \<and>
         (\<exists>m\<le>n. freq_current st' = freq_current st - real m * loosen_step opts)"
  using assms
proof (induction n arbitrary: st)
  case 0
  then show ?case by simp
next
  case (Suc n)
  from Suc.prems(1) obtain c st1 where
    step: "cycle_step zipf api opts banned re_word st = Inr (c, st1)"
    by (auto split: sum.splits)
  from step have f1: "freq_current st1 = freq_current st \<or>
       (\<not> freq_current st - loosen_step opts < min_freq opts \<and>
        freq_current st1 = freq_current st - loosen_step opts)"
    by (cases rule: cycle_step_Inr) auto
  with Suc.prems(2) have floor1: "min_freq opts \<le> freq_current st1"
    by auto
  from f1 have m1: "\<exists>m\<le>1. freq_current st1 = freq_current st - real m * loosen_step opts"
  proof
    assume "freq_current st1 = freq_current st"
    then have "freq_current st1 = freq_current st - real 0 * loosen_step opts" by simp
    then show ?thesis by blast
  next
    assume "\<not> freq_current st - loosen_step opts < min_freq opts \<and>
        freq_current st1 = freq_current st - loosen_step opts"
    then have "freq_current st1 = freq_current st - real 1 * loosen_step opts" by simp
    then show ?thesis by blast
  qed
  show ?case
  proof (cases c)
    case (Break reason)
    with Suc.prems(1) step have eq: "st' = st1" by (simp split: if_splits)
    from m1 obtain j where "j \<le> 1" "freq_current st1 = freq_current st - real j * loosen_step opts"
      by auto
    then have "j \<le> Suc n" "freq_current st' = freq_current st - real j * loosen_step opts"
      using eq by simp_all
    with floor1 eq show ?thesis by blast
  next
    case Continue
    with Suc.prems(1) step have "after_cycle zipf api opts banned re_word n st1 = Some st'"
      by simp
    from Suc.IH[OF this floor1] obtain m where
      m: "m \<le> n" "freq_current st' = freq_current st1 - real m * loosen_step opts"
      and fl: "min_freq opts \<le> freq_current st'"
      by auto
    from m1 obtain j where j: "j \<le> 1" "freq_current st1 = freq_current st - real j * loosen_step opts"
      by auto
    from m j have "m + j \<le> Suc n"
      "freq_current st' = freq_current st - real (m + j) * loosen_step opts"
      by (simp_all add: algebra_simps)
    with fl show ?thesis by blast
  qed
qed

lemma main_loop_bounded:
  assumes "1 \<le> max_cycles opts"
  shows "\<exists>r. main_loop zipf api opts banned re_word st = Some r \<and>
           (case r of Inl e \<Rightarrow> True
            | Inr (reason, st') \<Rightarrow> passes st' \<le> passes st + nat (max_cycles opts - cycle st))"
proof (induction "nat (max_cycles opts - cycle st)" arbitrary: st rule: less_induct)
  case less
  show ?case
  proof (cases "cycle_step zipf api opts banned re_word st")
    case (Inl e)
    then have "main_loop zipf api opts banned re_word st = Some (Inl e)"
      by (subst main_loop.simps) simp
    then show ?thesis by simp
  next
    case (Inr r)
    obtain c st1 where r: "r = (c, st1)" by (cases r)
    with Inr have step: "cycle_step zipf api opts banned re_word st = Inr (c, st1)" by simp
    from step show ?thesis
    proof (cases rule: cycle_step_Inr)
      case abort
      with step have "main_loop zipf api opts banned re_word st = Some (Inr (MaxCycles, st1))"
        by (subst main_loop.simps) simp
      with abort show ?thesis by simp
    next
      case (pass k ws out added)
      with assms have room: "cycle st + 1 \<le> max_cycles opts" by auto
      show ?thesis
      proof (cases c)
        case (Break reason)
        with step have "main_loop zipf api opts banned re_word st = Some (Inr (reason, st1))"
          by (subst main_loop.simps) simp
        with pass room show ?thesis by simp
      next
        case Continue
        with step have unf: "main_loop zipf api opts banned re_word st
            = main_loop zipf api opts banned re_word st1"
          by (subst main_loop.simps) simp
        from pass room have "nat (max_cycles opts - cycle st1) < nat (max_cycles opts - cycle st)"
          by simp
        from less[OF this] obtain r1 where
          r1: "main_loop zipf api opts banned re_word st1 = Some r1"
            "case r1 of Inl e \<Rightarrow> True
             | Inr (reason, st') \<Rightarrow> passes st' \<le> passes st1 + nat (max_cycles opts - cycle st1)"
          by blast
        from pass room have "passes st1 + nat (max_cycles opts - cycle st1)
            \<le> passes st + nat (max_cycles opts - cycle st)"
          by simp
        with r1 unf show ?thesis by (auto split: sum.splits)
      qed
    qed
  qed
qed

text \<open>
  Claim C7. Acceptance is monotone under relaxation of the threshold: a word that
  \<open>is_valid\<close> accepts at the threshold \<open>t1\<close> is accepted at every threshold \<open>t2 \<le> t1\<close>,
  the banned set, the length window and the proper-noun setting being the same. And a word
  that is in \<open>final_words\<close> is still there after any number of further cycles of the main
  loop, whatever relaxation they bring: the loop only adds words and never looks at the
  frequency of a word it has accepted.
\<close>

theorem acceptance_monotone:
  "(t2 \<le> t1 \<and> is_valid zipf w t1 banned re_word allow_proper = Inr True
      \<longrightarrow> is_valid zipf w t2 banned re_word allow_proper = Inr True)
   \<and> (w |\<in>| final_words st \<and> after_cycle zipf api opts banned re_word n st = Some st'
      \<longrightarrow> w |\<in>| final_words st')"
proof (intro conjI impI)
  assume "t2 \<le> t1 \<and> is_valid zipf w t1 banned re_word allow_proper = Inr True"
  then show "is_valid zipf w t2 banned re_word allow_proper = Inr True"
    by (auto simp: is_valid_def split: if_splits list.splits)
next
  assume "w |\<in>| final_words st \<and> after_cycle zipf api opts banned re_word n st = Some st'"
  then show "w |\<in>| final_words st'"
    using after_cycle_keeps by blast
qed

lemma sample_apple_valid:
  "is_valid sample_zipf ''apple'' (7/2) (set DEFAULT_BANNED) (make_word_re 4 7) False = Inr True"
  by code_simp

lemma sample_second_cycle:
  "after_cycle sample_zipf sample_api sample_opts (set DEFAULT_BANNED) (make_word_re 4 7) 1
     \<lparr>final_words = {|''apple''|}, out_fh = [], freq_current = 7/2, cycle = 1, calls = 27,
        passes = 1\<rparr>
   = Some \<lparr>final_words = {|''apple''|}, out_fh = [], freq_current = 3, cycle = 2,
        calls = 53, passes = 2\<rparr>"
  by code_simp

theorem acceptance_monotone_witness:
  "((3::real) \<le> 7/2
     \<and> is_valid sample_zipf ''apple'' (7/2) (set DEFAULT_BANNED) (make_word_re 4 7) False
         = Inr True)
   \<and> is_valid sample_zipf ''apple'' 3 (set DEFAULT_BANNED) (make_word_re 4 7) False = Inr True
   \<and> (''apple'' |\<in>| final_words \<lparr>final_words = {|''apple''|}, out_fh = [],
          freq_current = 7/2, cycle = 1, calls = 27, passes = 1\<rparr>
     \<and> after_cycle sample_zipf sample_api sample_opts (set DEFAULT_BANNED) (make_word_re 4 7) 1
          \<lparr>final_words = {|''apple''|}, out_fh = [], freq_current = 7/2, cycle = 1,
             calls = 27, passes = 1\<rparr>
        = Some \<lparr>final_words = {|''apple''|}, out_fh = [], freq_current = 3, cycle = 2,
             calls = 53, passes = 2\<rparr>)
   \<and> ''apple'' |\<in>| final_words \<lparr>final_words = {|''apple''|}, out_fh = [],
          freq_current = 3, cycle = 2, calls = 53, passes = 2\<rparr>"
  using acceptance_monotone [of 3 "7/2" sample_zipf "''apple''" "set DEFAULT_BANNED"
      "make_word_re 4 7" False
      "\<lparr>final_words = {|''apple''|}, out_fh = [], freq_current = 7/2, cycle = 1, calls = 27,
         passes = 1\<rparr>"
      sample_api sample_opts 1
      "\<lparr>final_words = {|''apple''|}, out_fh = [], freq_current = 3, cycle = 2, calls = 53,
         passes = 2\<rparr>"]
    sample_apple_valid sample_second_cycle
  by simp

section \<open>Properties of the morphological expander\<close>

text \<open>
  Claim C9. A base word outside the irregular table that ends in \<open>ie\<close> should get its
  progressive form by replacing \<open>ie\<close> with \<open>ying\<close>. The expander of
  \<open>create_truly_readable_dictionary.py\<close> has no rule for \<open>ie\<close>: the word falls under the
  rule for a final \<open>e\<close>, which drops the \<open>e\<close> only. For \<open>tie\<close>, which is not in the
  table, the forms are the six below: \<open>tiing\<close> is among them and \<open>tying\<close> is not.
\<close>

theorem generate_all_forms_tie:
  "map_of irregular ''tie'' = None \<and> endswith ''tie'' ''ie''
   \<and> butlast (butlast ''tie'') @ ''ying'' \<notin> generate_all_forms ''tie''
   \<and> generate_all_forms ''tie'' = {''tie'', ''ties'', ''tiing'', ''tied'', ''tier'', ''tiely''}"
  by code_simp

subsection \<open>The loop ends\<close>

lemma query_model_calls:
  "query_model api k n = (r, k') \<Longrightarrow> k \<le> k' \<and> k' \<le> k + n"
proof (induction n arbitrary: k)
  case 0
  then show ?case by simp
next
  case (Suc n)
  show ?case
  proof (cases "api k")
    case OpenAIError
    with Suc.prems have "query_model api (Suc k) n = (r, k')" by simp
    from Suc.IH[OF this] show ?thesis by simp
  next
    case (Content s)
    with Suc.prems show ?thesis by auto
  qed
qed

lemma letter_loop_calls:
  "letter_loop zipf api opts thr banned re_word seen (k, ws, out, added) = Inr (k', ws', out', added')
    \<Longrightarrow> k' \<le> k + nat (max_retries opts) * nat (per_letter_max opts - int (fcard seen))"
proof (induction zipf api opts thr banned re_word seen "(k, ws, out, added)" arbitrary: k ws out added
    rule: letter_loop.induct)
  case (1 zipf api opts thr banned re_word seen k ws out added)
  let ?R = "nat (max_retries opts)"
  show ?case
  proof (cases "int (fcard seen) < per_letter_max opts")
    case False
    with "1.prems" show ?thesis by simp
  next
    case True
    then have room: "1 \<le> nat (per_letter_max opts - int (fcard seen))" by simp
    obtain r kq where q: "query_model api k ?R = (r, kq)"
      by (cases "query_model api k ?R")
    from query_model_calls[OF q] have kq: "kq \<le> k + ?R" by simp
    have one: "k + ?R \<le> k + ?R * nat (per_letter_max opts - int (fcard seen))"
      using room by (metis add_le_cancel_left mult.right_neutral mult_le_mono2)
    from kq one have kqb: "kq \<le> k + ?R * nat (per_letter_max opts - int (fcard seen))"
      by (rule order_trans)
    show ?thesis
    proof (cases r)
      case (Inl e)
      with "1.prems" True q show ?thesis by simp
    next
      case (Inr content)
      show ?thesis
      proof (cases "content = []")
        case True
        with "1.prems" \<open>int (fcard seen) < per_letter_max opts\<close> q Inr have "k' = kq" by simp
        with kqb show ?thesis by blast
      next
        case False
        show ?thesis
        proof (cases "new_batch zipf opts thr banned re_word ws seen (splitlines content)")
          case (Inl e)
          with "1.prems" True q Inr False show ?thesis by simp
        next
          case batch: (Inr b)
          show ?thesis
          proof (cases b)
            case Nil
            with "1.prems" True q Inr False batch have "k' = kq" by simp
            with kqb show ?thesis by blast
          next
            case (Cons w b')
            let ?seen' = "seen |\<union>| fset_of_list (w # b')"
            from "1.prems" True q Inr False batch Cons
            have "letter_loop zipf api opts thr banned re_word ?seen'
                    (kq, ws |\<union>| fset_of_list (w # b'),
                     out @ map (\<lambda>w. w @ [char_of (10::nat)]) (w # b'), added + length (w # b'))
                  = Inr (k', ws', out', added')"
              by simp
            from "1.hyps"[OF True q[symmetric] Inr False batch Cons this]
            have ih: "k' \<le> kq + ?R * nat (per_letter_max opts - int (fcard ?seen'))" .
            from batch Cons have "fcard seen < fcard ?seen'"
              by (auto dest: new_batch_grows)
            with True have "nat (per_letter_max opts - int (fcard ?seen')) + 1
                \<le> nat (per_letter_max opts - int (fcard seen))"
              by simp
            then have "?R * (nat (per_letter_max opts - int (fcard ?seen')) + 1)
                \<le> ?R * nat (per_letter_max opts - int (fcard seen))"
              by (rule mult_le_mono2)
            with ih kq show ?thesis by (simp add: algebra_simps)
          qed
        qed
      qed
    qed
  qed
qed

lemma trim_surplus_counters:
  "passes (trim_surplus zipf opts order st) = passes st \<and>
   cycle (trim_surplus zipf opts order st) = cycle st"
  by (simp add: trim_surplus_def Let_def)

lemma main_loop_counts:
  assumes "1 \<le> max_cycles opts"
    and "int (passes st) = cycle st" and "cycle st \<le> max_cycles opts"
  shows "\<exists>r. main_loop zipf api opts banned re_word st = Some r \<and>
           (case r of Inl e \<Rightarrow> True
            | Inr (reason, st') \<Rightarrow>
                (if reason = MaxCycles
                 then cycle st' = max_cycles opts + 1 \<and> int (passes st') = max_cycles opts
                 else int (passes st') = cycle st' \<and> cycle st' \<le> max_cycles opts))"
  using assms(2,3)
proof (induction "nat (max_cycles opts - cycle st)" arbitrary: st rule: less_induct)
  case less
  show ?case
  proof (cases "cycle_step zipf api opts banned re_word st")
    case (Inl e)
    then have "main_loop zipf api opts banned re_word st = Some (Inl e)"
      by (subst main_loop.simps) simp
    then show ?thesis by simp
  next
    case (Inr r)
    obtain c st1 where r: "r = (c, st1)" by (cases r)
    with Inr have step: "cycle_step zipf api opts banned re_word st = Inr (c, st1)" by simp
    from step show ?thesis
    proof (cases rule: cycle_step_Inr)
      case abort
      with step have "main_loop zipf api opts banned re_word st = Some (Inr (MaxCycles, st1))"
        by (subst main_loop.simps) simp
      moreover from abort less.prems have "cycle st1 = max_cycles opts + 1"
        "int (passes st1) = max_cycles opts"
        by simp_all
      ultimately show ?thesis by simp
    next
      case (pass k ws out added)
      with assms(1) have room: "cycle st + 1 \<le> max_cycles opts" by auto
      from pass less.prems have inv1: "int (passes st1) = cycle st1" by simp
      show ?thesis
      proof (cases c)
        case (Break reason)
        with step have "main_loop zipf api opts banned re_word st = Some (Inr (reason, st1))"
          by (subst main_loop.simps) simp
        moreover from Break pass have "reason \<noteq> MaxCycles" by simp
        ultimately show ?thesis using pass room inv1 by simp
      next
        case Continue
        with step have unf: "main_loop zipf api opts banned re_word st
            = main_loop zipf api opts banned re_word st1"
          by (subst main_loop.simps) simp
        from pass room have "nat (max_cycles opts - cycle st1) < nat (max_cycles opts - cycle st)"
          "cycle st1 \<le> max_cycles opts"
          by simp_all
        from less.hyps[OF this(1) inv1 this(2)] unf show ?thesis by simp
      qed
    qed
  qed
qed

lemma sample_short_step1:
  "cycle_step sample_zipf sample_api (sample_opts\<lparr>max_cycles := 2\<rparr>) (set DEFAULT_BANNED)
     (make_word_re 4 7) sample_state
   = Inr (Continue, \<lparr>final_words = {|''apple''|}, out_fh = [''apple'' @ newline],
        freq_current = 7/2, cycle = 1, calls = 27, passes = 1\<rparr>)"
  by code_simp

lemma sample_short_step2:
  "cycle_step sample_zipf sample_api (sample_opts\<lparr>max_cycles := 2\<rparr>) (set DEFAULT_BANNED)
     (make_word_re 4 7)
     \<lparr>final_words = {|''apple''|}, out_fh = [''apple'' @ newline],
        freq_current = 7/2, cycle = 1, calls = 27, passes = 1\<rparr>
   = Inr (Continue, \<lparr>final_words = {|''apple''|}, out_fh = [''apple'' @ newline],
        freq_current = 3, cycle = 2, calls = 53, passes = 2\<rparr>)"
  by code_simp

lemma sample_short_step3:
  "cycle_step sample_zipf sample_api (sample_opts\<lparr>max_cycles := 2\<rparr>) (set DEFAULT_BANNED)
     (make_word_re 4 7)
     \<lparr>final_words = {|''apple''|}, out_fh = [''apple'' @ newline],
        freq_current = 3, cycle = 2, calls = 53, passes = 2\<rparr>
   = Inr (Break MaxCycles, \<lparr>final_words = {|''apple''|}, out_fh = [''apple'' @ newline],
        freq_current = 3, cycle = 3, calls = 53, passes = 2\<rparr>)"
  by code_simp

lemma sample_short_loop:
  "main_loop sample_zipf sample_api (sample_opts\<lparr>max_cycles := 2\<rparr>) (set DEFAULT_BANNED)
     (make_word_re 4 7) sample_state
   = Some (Inr (MaxCycles, \<lparr>final_words = {|''apple''|}, out_fh = [''apple'' @ newline],
        freq_current = 3, cycle = 3, calls = 53, passes = 2\<rparr>))"
  apply (subst main_loop.simps, simp only: sample_short_step1 sum.case prod.case control.case)
  apply (subst main_loop.simps, simp only: sample_short_step2 sum.case prod.case control.case)
  apply (subst main_loop.simps, simp only: sample_short_step3 sum.case prod.case control.case)
  done

lemma sample_short_main:
  "main sample_zipf sample_api sorted_list_of_fset (sample_opts\<lparr>max_cycles := 2\<rparr>) [] []
   = Some (Inr (MaxCycles, \<lparr>final_words = {|''apple''|}, out_fh = [''apple'' @ newline],
        freq_current = 3, cycle = 3, calls = 53, passes = 2\<rparr>))"
proof -
  have st: "\<lparr>final_words = fset_of_list (filter (\<lambda>w. w \<noteq> []) (map strip [])), out_fh = [],
       freq_current = freq_threshold (sample_opts\<lparr>max_cycles := 2\<rparr>), cycle = 0, calls = 0,
       passes = 0\<rparr> = sample_state"
    by (simp add: sample_state_def sample_opts_def)
  have re: "make_word_re (min_length (sample_opts\<lparr>max_cycles := 2\<rparr>))
       (max_length (sample_opts\<lparr>max_cycles := 2\<rparr>)) = make_word_re 4 7"
    by (simp add: sample_opts_def)
  have bn: "set DEFAULT_BANNED \<union> set (map (\<lambda>w. lower (strip w)) []) = set DEFAULT_BANNED"
    by simp
  have tr: "trim_surplus sample_zipf (sample_opts\<lparr>max_cycles := 2\<rparr>) sorted_list_of_fset
       \<lparr>final_words = {|''apple''|}, out_fh = [''apple'' @ newline],
        freq_current = 3, cycle = 3, calls = 53, passes = 2\<rparr>
     = \<lparr>final_words = {|''apple''|}, out_fh = [''apple'' @ newline],
        freq_current = 3, cycle = 3, calls = 53, passes = 2\<rparr>"
    by code_simp
  show ?thesis
    unfolding main_def Let_def st re bn sample_short_loop
    using tr by simp
qed

lemma sample_letter_a:
  "letter_loop sample_zipf sample_api sample_opts (7/2) (set DEFAULT_BANNED) (make_word_re 4 7)
     {||} (0, {||}, [], 0)
   = Inr (2, {|''apple''|}, [''apple'' @ newline], 1)"
  by code_simp

text \<open>
  Claim C8. With \<open>max_cycles \<ge> 1\<close> the run of \<open>main\<close> ends, whatever the service answers:
  it gives a result, which is an exception out of a pass or a reason for leaving the loop
  with the final state. By then \<open>alphabet_pass\<close> has been called at most \<open>max_cycles\<close>
  times; when the loop is left for the cycle limit it has been called exactly
  \<open>max_cycles\<close> times and the abort happens at the top of cycle \<open>max_cycles + 1\<close>.
  Each pass ends because the loop of a letter goes on only when \<open>seen\<close> has grown, and only
  below the cap (that is the measure of \<open>letter_loop\<close>): so a letter costs no more calls of
  the service than \<open>max_retries\<close> times the room that \<open>seen\<close> had below the cap.
\<close>

theorem main_terminates:
  "(1 \<le> max_cycles opts \<longrightarrow>
     (\<exists>r. main zipf api order opts banned_lines resumed = Some r \<and>
        (case r of
           Inl e \<Rightarrow> True
         | Inr (reason, st) \<Rightarrow>
             int (passes st) \<le> max_cycles opts \<and>
             (reason = MaxCycles \<longrightarrow>
                int (passes st) = max_cycles opts \<and> cycle st = max_cycles opts + 1))))
   \<and> (letter_loop zipf api opts thr banned re_word seen (k, ws, out, added)
         = Inr (k', ws', out', added')
       \<longrightarrow> k' \<le> k + nat (max_retries opts) * nat (per_letter_max opts - int (fcard seen)))"
proof (intro conjI impI)
  assume m: "1 \<le> max_cycles opts"
  let ?st0 = "\<lparr>final_words = fset_of_list (filter (\<lambda>w. w \<noteq> []) (map strip resumed)),
                out_fh = [], freq_current = freq_threshold opts, cycle = 0, calls = 0,
                passes = 0\<rparr>"
  let ?banned = "set DEFAULT_BANNED \<union> set (map (\<lambda>w. lower (strip w)) banned_lines)"
  let ?re = "make_word_re (min_length opts) (max_length opts)"
  from m have "int (passes ?st0) = cycle ?st0" "cycle ?st0 \<le> max_cycles opts" by simp_all
  from main_loop_counts[OF m this, of zipf api ?banned ?re] obtain r where
    r: "main_loop zipf api opts ?banned ?re ?st0 = Some r"
    and c: "case r of Inl e \<Rightarrow> True
            | Inr (reason, st') \<Rightarrow>
                (if reason = MaxCycles
                 then cycle st' = max_cycles opts + 1 \<and> int (passes st') = max_cycles opts
                 else int (passes st') = cycle st' \<and> cycle st' \<le> max_cycles opts)"
    by blast
  let ?r = "map_sum id (\<lambda>(reason, st'). (reason, trim_surplus zipf opts order st')) r"
  from r have "main zipf api order opts banned_lines resumed = Some ?r"
    by (simp add: main_def Let_def)
  moreover from c have "case ?r of
           Inl e \<Rightarrow> True
         | Inr (reason, st) \<Rightarrow>
             int (passes st) \<le> max_cycles opts \<and>
             (reason = MaxCycles \<longrightarrow>
                int (passes st) = max_cycles opts \<and> cycle st = max_cycles opts + 1)"
    by (cases r) (auto simp: trim_surplus_counters split: if_splits)
  ultimately show "\<exists>r. main zipf api order opts banned_lines resumed = Some r \<and>
        (case r of
           Inl e \<Rightarrow> True
         | Inr (reason, st) \<Rightarrow>
             int (passes st) \<le> max_cycles opts \<and>
             (reason = MaxCycles \<longrightarrow>
                int (passes st) = max_cycles opts \<and> cycle st = max_cycles opts + 1))"
    by blast
next
  assume "letter_loop zipf api opts thr banned re_word seen (k, ws, out, added)
         = Inr (k', ws', out', added')"
  then show "k' \<le> k + nat (max_retries opts) * nat (per_letter_max opts - int (fcard seen))"
    by (rule letter_loop_calls)
qed

theorem main_terminates_witness:
  "1 \<le> max_cycles (sample_opts\<lparr>max_cycles := 2\<rparr>)
   \<and> main sample_zipf sample_api sorted_list_of_fset (sample_opts\<lparr>max_cycles := 2\<rparr>) [] []
       = Some (Inr (MaxCycles, \<lparr>final_words = {|''apple''|}, out_fh = [''apple'' @ newline],
            freq_current = 3, cycle = 3, calls = 53, passes = 2\<rparr>))
   \<and> letter_loop sample_zipf sample_api sample_opts (7/2) (set DEFAULT_BANNED)
        (make_word_re 4 7) {||} (0, {||}, [], 0)
       = Inr (2, {|''apple''|}, [''apple'' @ newline], 1)
   \<and> (2::nat) \<le> 0 + nat (max_retries sample_opts)
         * nat (per_letter_max sample_opts - int (fcard ({||} :: string fset)))"
  using main_terminates [of "sample_opts\<lparr>max_cycles := 2\<rparr>" sample_zipf sample_api
      sorted_list_of_fset "[]" "[]" "7/2" "set DEFAULT_BANNED" "make_word_re 4 7" "{||}" 0 "{||}"
      "[]" 0 2 "{|''apple''|}" "[''apple'' @ newline]" 1]
    sample_short_main sample_letter_a
  by (simp add: sample_opts_def fcard_fempty)

subsection \<open>The threshold\<close>

lemma cycle_step_stall:
  assumes "cycle_step zipf api opts banned re_word st = Inr (Continue, st')"
    and "alphabet_pass zipf api opts (freq_current st) banned re_word alphabet
           (calls st, final_words st, out_fh st, 0) = Inr (k, ws, out, added)"
  shows "freq_current st' =
           (if added = 0 then freq_current st - loosen_step opts else freq_current st)"
  using assms by (auto simp: cycle_step_def Let_def split: if_splits)

lemma after_cycle_lowered:
  assumes "after_cycle zipf api opts banned re_word n st = Some st'"
    and "min_freq opts \<le> freq_current st" and "0 \<le> loosen_step opts"
  shows "freq_current st' \<le> freq_current st"
proof -
  from after_cycle_freq[OF assms(1,2)] obtain m where
    "freq_current st' = freq_current st - real m * loosen_step opts"
    by blast
  moreover from assms(3) have "0 \<le> real m * loosen_step opts" by simp
  ultimately show ?thesis by simp
qed

text \<open>
  Claim C6, as stated, says that the threshold is only ever lowered. The loop subtracts
  \<open>--loosen-step\<close> whatever its sign: with a step of \<open>-1/2\<close>, a floor of \<open>5/2\<close> and the
  threshold at \<open>7/2\<close>, the stalled second cycle of the sample run leaves the threshold
  at \<open>4\<close>.
\<close>

theorem threshold_raised_counterexample:
  "after_cycle sample_zipf sample_api (sample_opts\<lparr>loosen_step := - 1/2\<rparr>)
     (set DEFAULT_BANNED) (make_word_re 4 7) 1
     \<lparr>final_words = {|''apple''|}, out_fh = [], freq_current = 7/2, cycle = 1, calls = 27,
        passes = 1\<rparr>
   = Some \<lparr>final_words = {|''apple''|}, out_fh = [], freq_current = 4, cycle = 2,
        calls = 53, passes = 2\<rparr>
   \<and> min_freq (sample_opts\<lparr>loosen_step := - 1/2\<rparr>) \<le> 7/2 \<and> (7/2 :: real) < 4"
  by code_simp

text \<open>
  Claim C6, amended. Assume the threshold is at least \<open>min_freq\<close> before a cycle. Then
  after every later cycle it is still at least \<open>min_freq\<close>, and it is the earlier threshold
  less a whole number of steps, at most one for each cycle; so with a step that is not
  negative it has only been lowered. A cycle after which the loop goes on lowers the
  threshold by exactly \<open>loosen_step\<close> when its pass added no word, and leaves it alone
  otherwise.
\<close>

theorem threshold_floor:
  "(min_freq opts \<le> freq_current st
      \<and> after_cycle zipf api opts banned re_word n st = Some st'
    \<longrightarrow> min_freq opts \<le> freq_current st'
        \<and> (\<exists>m\<le>n. freq_current st' = freq_current st - real m * loosen_step opts)
        \<and> (0 \<le> loosen_step opts \<longrightarrow> freq_current st' \<le> freq_current st))
   \<and> (cycle_step zipf api opts banned re_word st = Inr (Continue, st1)
      \<and> alphabet_pass zipf api opts (freq_current st) banned re_word alphabet
           (calls st, final_words st, out_fh st, 0) = Inr (k, ws, out, added)
    \<longrightarrow> freq_current st1
          = (if added = 0 then freq_current st - loosen_step opts else freq_current st))"
proof (intro conjI impI)
  assume a: "min_freq opts \<le> freq_current st
      \<and> after_cycle zipf api opts banned re_word n st = Some st'"
  then show "min_freq opts \<le> freq_current st'"
    and "\<exists>m\<le>n. freq_current st' = freq_current st - real m * loosen_step opts"
    using after_cycle_freq by blast+
  assume "0 \<le> loosen_step opts"
  with a show "freq_current st' \<le> freq_current st"
    using after_cycle_lowered by blast
next
  assume "cycle_step zipf api opts banned re_word st = Inr (Continue, st1)
      \<and> alphabet_pass zipf api opts (freq_current st) banned re_word alphabet
           (calls st, final_words st, out_fh st, 0) = Inr (k, ws, out, added)"
  then show "freq_current st1
          = (if added = 0 then freq_current st - loosen_step opts else freq_current st)"
    using cycle_step_stall by blast
qed

lemma sample_stall_step:
  "cycle_step sample_zipf sample_api sample_opts (set DEFAULT_BANNED) (make_word_re 4 7)
     \<lparr>final_words = {|''apple''|}, out_fh = [], freq_current = 7/2, cycle = 1, calls = 27,
        passes = 1\<rparr>
   = Inr (Continue, \<lparr>final_words = {|''apple''|}, out_fh = [], freq_current = 3, cycle = 2,
        calls = 53, passes = 2\<rparr>)"
  by code_simp

lemma sample_stall_pass:
  "alphabet_pass sample_zipf sample_api sample_opts (7/2) (set DEFAULT_BANNED)
     (make_word_re 4 7) alphabet (27, {|''apple''|}, [], 0)
   = Inr (53, {|''apple''|}, [], 0)"
  by code_simp

theorem threshold_floor_witness:
  "(min_freq sample_opts \<le> 7/2
     \<and> after_cycle sample_zipf sample_api sample_opts (set DEFAULT_BANNED) (make_word_re 4 7) 1
          \<lparr>final_words = {|''apple''|}, out_fh = [], freq_current = 7/2, cycle = 1,
             calls = 27, passes = 1\<rparr>
        = Some \<lparr>final_words = {|''apple''|}, out_fh = [], freq_current = 3, cycle = 2,
             calls = 53, passes = 2\<rparr>)
   \<and> min_freq sample_opts \<le> 3
   \<and> (\<exists>m\<le>1. (3::real) = 7/2 - real m * loosen_step sample_opts)
   \<and> 0 \<le> loosen_step sample_opts \<and> (3::real) \<le> 7/2
   \<and> cycle_step sample_zipf sample_api sample_opts (set DEFAULT_BANNED) (make_word_re 4 7)
        \<lparr>final_words = {|''apple''|}, out_fh = [], freq_current = 7/2, cycle = 1,
           calls = 27, passes = 1\<rparr>
      = Inr (Continue, \<lparr>final_words = {|''apple''|}, out_fh = [], freq_current = 3,
           cycle = 2, calls = 53, passes = 2\<rparr>)
   \<and> alphabet_pass sample_zipf sample_api sample_opts (7/2) (set DEFAULT_BANNED)
        (make_word_re 4 7) alphabet (27, {|''apple''|}, [], 0)
      = Inr (53, {|''apple''|}, [], 0)
   \<and> (3::real) = 7/2 - loosen_step sample_opts"
  using threshold_floor [of sample_opts
      "\<lparr>final_words = {|''apple''|}, out_fh = [], freq_current = 7/2, cycle = 1, calls = 27,
         passes = 1\<rparr>"
      sample_zipf sample_api "set DEFAULT_BANNED" "make_word_re 4 7" 1
      "\<lparr>final_words = {|''apple''|}, out_fh = [], freq_current = 3, cycle = 2, calls = 53,
         passes = 2\<rparr>"
      "\<lparr>final_words = {|''apple''|}, out_fh = [], freq_current = 3, cycle = 2, calls = 53,
         passes = 2\<rparr>"
      53 "{|''apple''|}" "[]" 0]
    sample_second_cycle sample_stall_step sample_stall_pass
  by (simp add: sample_opts_def)

subsection \<open>Trimming\<close>

lemma sorted_distinct_same:
  fixes xs ys :: "'a::linorder list"
  assumes "distinct xs" "distinct ys" "set xs = set ys"
  shows "sort_reverse xs = sort_reverse ys"
proof -
  have "sort (rev xs) = sort (rev ys)"
    using assms by (intro sorted_distinct_set_unique) simp_all
  then show ?thesis by (simp add: sort_reverse_def)
qed

lemma trim_to_target_deterministic:
  assumes "distinct xs" "distinct ys" "set xs = set ys"
  shows "trim_to_target zipf xs target min_len max_len = trim_to_target zipf ys target min_len max_len"
proof -
  let ?P = "fullmatch (make_word_re min_len max_len)"
  let ?f = "\<lambda>w. (zipf w, w)"
  have inj: "inj_on ?f A" for A by (rule inj_onI) simp
  have "distinct (map ?f (filter ?P xs))" "distinct (map ?f (filter ?P ys))"
    using assms by (simp_all add: distinct_map inj)
  moreover have "set (map ?f (filter ?P xs)) = set (map ?f (filter ?P ys))"
    using assms by simp
  ultimately have "sort_reverse (map ?f (filter ?P xs)) = sort_reverse (map ?f (filter ?P ys))"
    by (rule sorted_distinct_same)
  then show ?thesis by (simp add: trim_to_target_def Let_def)
qed

lemma trim_to_target_length:
  "0 \<le> target \<Longrightarrow> length (trim_to_target zipf xs target min_len max_len)
     = min (nat target) (length (filter (fullmatch (make_word_re min_len max_len)) xs))"
  by (simp add: trim_to_target_def Let_def py_prefix_def sort_reverse_def)

lemma descending_sort:
  fixes xs :: "'a::linorder list"
  assumes "distinct xs"
  shows "sorted_wrt (\<lambda>a b. b < a) (sort_reverse xs)"
proof -
  have "sorted_wrt (<) (sort (rev xs))"
    using assms by (simp add: strict_sorted_iff)
  then show ?thesis
    by (simp add: sort_reverse_def sorted_wrt_rev)
qed

lemma trim_to_target_ranking:
  fixes zipf :: "string \<Rightarrow> real" and xs :: "string list" and min_len max_len :: nat
  assumes "distinct xs" "0 \<le> target"
  defines "M \<equiv> filter (fullmatch (make_word_re min_len max_len)) xs"
  defines "kept \<equiv> trim_to_target zipf xs target min_len max_len"
  shows "set kept \<subseteq> set M"
    and "sorted_wrt (\<lambda>a b. (zipf b, b) < (zipf a, a)) kept"
    and "\<forall>k\<in>set kept. \<forall>d\<in>set M - set kept. (zipf d, d) < (zipf k, k)"
proof -
  let ?f = "\<lambda>w. (zipf w, w)"
  let ?S = "sort_reverse (map ?f M)"
  let ?n = "nat target"
  have inj: "inj_on ?f A" for A by (rule inj_onI) simp
  have dM: "distinct (map ?f M)"
    using assms(1) by (simp add: M_def distinct_map inj)
  have desc: "sorted_wrt (\<lambda>a b. b < a) ?S"
    using dM by (rule descending_sort)
  have setS: "set ?S = ?f ` set M"
    by (simp add: sort_reverse_def)
  have kept: "kept = map snd (take ?n ?S)"
    using assms(2) by (simp add: kept_def trim_to_target_def Let_def py_prefix_def M_def)
  have snd_f: "map ?f (map snd ys) = ys" if "set ys \<subseteq> ?f ` set M" for ys
    using that by (induction ys) auto
  have tk: "set (take ?n ?S) \<subseteq> ?f ` set M"
  proof
    fix p assume "p \<in> set (take ?n ?S)"
    then have "p \<in> set ?S" by (rule in_set_takeD)
    then show "p \<in> ?f ` set M" by (simp only: setS)
  qed
  have fk: "map ?f kept = take ?n ?S"
    unfolding kept by (rule snd_f[OF tk])
  have mem: "w \<in> set kept \<longleftrightarrow> ?f w \<in> set (take ?n ?S)" for w
  proof -
    have "?f w \<in> set (map ?f kept) \<longleftrightarrow> w \<in> set kept"
      by (simp add: image_iff)
    then show ?thesis by (simp only: fk)
  qed
  show sub: "set kept \<subseteq> set M"
  proof
    fix w assume "w \<in> set kept"
    then have "?f w \<in> set (take ?n ?S)" by (simp only: mem)
    with tk have "?f w \<in> ?f ` set M" by blast
    then show "w \<in> set M" by (simp add: image_iff)
  qed
  have "sorted_wrt (\<lambda>a b. b < a) (take ?n ?S)"
    using desc by (rule sorted_wrt_take)
  then have "sorted_wrt (\<lambda>a b. b < a) (map ?f kept)"
    by (simp only: fk)
  then show "sorted_wrt (\<lambda>a b. (zipf b, b) < (zipf a, a)) kept"
    by (simp only: sorted_wrt_map)
  have split: "sorted_wrt (\<lambda>a b. b < a) (take ?n ?S @ drop ?n ?S)"
    using desc by simp
  show "\<forall>k\<in>set kept. \<forall>d\<in>set M - set kept. (zipf d, d) < (zipf k, k)"
  proof (intro ballI)
    fix k d assume k: "k \<in> set kept" and d: "d \<in> set M - set kept"
    from k have fk_in: "?f k \<in> set (take ?n ?S)"
      by (simp only: mem)
    from d have "?f d \<in> set ?S" by (simp add: setS)
    then have "?f d \<in> set (take ?n ?S @ drop ?n ?S)" by simp
    moreover from d have "?f d \<notin> set (take ?n ?S)"
      by (simp only: mem[symmetric]) simp
    ultimately have "?f d \<in> set (drop ?n ?S)"
      by (simp only: set_append Un_iff) blast
    with fk_in split show "(zipf d, d) < (zipf k, k)"
      unfolding sorted_wrt_append by blast
  qed
qed

lemma trim_surplus_deterministic:
  assumes "distinct (order1 (final_words st))" "distinct (order2 (final_words st))"
    and "fset_of_list (order1 (final_words st)) = final_words st"
    and "fset_of_list (order2 (final_words st)) = final_words st"
  shows "trim_surplus zipf opts order1 st = trim_surplus zipf opts order2 st"
proof -
  from assms(3,4) have "set (order1 (final_words st)) = set (order2 (final_words st))"
    by (metis fset_of_list.rep_eq)
  with assms(1,2) have "trim_to_target zipf (order1 (final_words st)) (target_size opts)
        (min_length opts) (max_length opts)
      = trim_to_target zipf (order2 (final_words st)) (target_size opts)
        (min_length opts) (max_length opts)"
    by (rule trim_to_target_deterministic)
  then show ?thesis by (simp add: trim_surplus_def)
qed

text \<open>
  Claim C5, as stated, ranks the candidates by descending frequency and breaks ties by
  lexicographic text, so that of two words of equal frequency the earlier one in the alphabet
  is kept. \<open>trim_to_target\<close> sorts the pairs (frequency, word) with \<open>sort(reverse=True)\<close>, which
  reverses the order of the whole pair: \<open>car\<close> and \<open>cat\<close> have the same frequency, \<open>car\<close> is the
  lexicographically smaller, and of the two the word kept for a target of 1 is \<open>cat\<close>.
\<close>

theorem trim_to_target_counterexample:
  "list_all (fullmatch (make_word_re 3 7)) [''car'', ''cat'']
   \<and> sample_zipf ''car'' = sample_zipf ''cat''
   \<and> ''car'' < ''cat''
   \<and> trim_to_target sample_zipf [''car'', ''cat''] 1 3 7 = [''cat'']"
  by code_simp

text \<open>
  Claim C5, amended. Trimming is a function of the set of candidates: two iteration orders
  of the same set give the same list, and \<open>main\<close> ends in the same state for both. For a set
  of accepted words, all of which match the length pattern as \<open>is_valid\<close> requires, that holds
  at least \<open>target_size\<close> words, the candidates are ranked by the total order on the pairs
  (frequency, text), greatest first: descending frequency, then descending text. Exactly
  \<open>target_size\<close> words are kept, they come in that order, and every candidate that is left
  out ranks below every kept one.
\<close>

theorem trim_to_target_ranked:
  "(distinct xs \<and> distinct ys \<and> set xs = set ys
      \<longrightarrow> trim_to_target zipf ys target min_len max_len
          = trim_to_target zipf xs target min_len max_len)
   \<and> (distinct (order1 (final_words st)) \<and> distinct (order2 (final_words st))
        \<and> fset_of_list (order1 (final_words st)) = final_words st
        \<and> fset_of_list (order2 (final_words st)) = final_words st
      \<longrightarrow> trim_surplus zipf opts order1 st = trim_surplus zipf opts order2 st)
   \<and> (distinct xs \<and> list_all (fullmatch (make_word_re min_len max_len)) xs
        \<and> 0 \<le> target \<and> target \<le> int (length xs)
      \<longrightarrow> length (trim_to_target zipf xs target min_len max_len) = nat target
        \<and> set (trim_to_target zipf xs target min_len max_len) \<subseteq> set xs
        \<and> sorted_wrt (\<lambda>a b. (zipf b, b) < (zipf a, a))
             (trim_to_target zipf xs target min_len max_len)
        \<and> (\<forall>k \<in> set (trim_to_target zipf xs target min_len max_len).
             \<forall>d \<in> set xs - set (trim_to_target zipf xs target min_len max_len).
               (zipf d, d) < (zipf k, k)))"
proof (intro conjI impI)
  assume "distinct xs \<and> distinct ys \<and> set xs = set ys"
  then show "trim_to_target zipf ys target min_len max_len
          = trim_to_target zipf xs target min_len max_len"
    using trim_to_target_deterministic by metis
next
  assume "distinct (order1 (final_words st)) \<and> distinct (order2 (final_words st))
        \<and> fset_of_list (order1 (final_words st)) = final_words st
        \<and> fset_of_list (order2 (final_words st)) = final_words st"
  then show "trim_surplus zipf opts order1 st = trim_surplus zipf opts order2 st"
    using trim_surplus_deterministic by blast
next
  assume a: "distinct xs \<and> list_all (fullmatch (make_word_re min_len max_len)) xs
        \<and> 0 \<le> target \<and> target \<le> int (length xs)"
  then have d: "distinct xs" and t: "0 \<le> target" and n: "target \<le> int (length xs)"
    and m: "list_all (fullmatch (make_word_re min_len max_len)) xs"
    by simp_all
  from m have all: "filter (fullmatch (make_word_re min_len max_len)) xs = xs"
    by (simp add: list_all_iff)
  from t n show "length (trim_to_target zipf xs target min_len max_len) = nat target"
    by (simp add: trim_to_target_length all)
  from trim_to_target_ranking[OF d t, of zipf min_len max_len]
  show "set (trim_to_target zipf xs target min_len max_len) \<subseteq> set xs"
    and "sorted_wrt (\<lambda>a b. (zipf b, b) < (zipf a, a))
             (trim_to_target zipf xs target min_len max_len)"
    and "\<forall>k \<in> set (trim_to_target zipf xs target min_len max_len).
             \<forall>d \<in> set xs - set (trim_to_target zipf xs target min_len max_len).
               (zipf d, d) < (zipf k, k)"
    by (simp_all only: all)
qed

theorem trim_to_target_ranked_witness:
  "(distinct [''angle'', ''azure'', ''apple'']
      \<and> distinct [''apple'', ''azure'', ''angle'']
      \<and> set [''angle'', ''azure'', ''apple''] = set [''apple'', ''azure'', ''angle''])
   \<and> trim_to_target sample_zipf [''apple'', ''azure'', ''angle''] 2 4 7
       = trim_to_target sample_zipf [''angle'', ''azure'', ''apple''] 2 4 7
   \<and> trim_to_target sample_zipf [''angle'', ''azure'', ''apple''] 2 4 7
       = [''apple'', ''angle'']
   \<and> (distinct (sample_order_up (final_words sample_overshoot))
      \<and> distinct (sample_order_down (final_words sample_overshoot))
      \<and> fset_of_list (sample_order_up (final_words sample_overshoot))
          = final_words sample_overshoot
      \<and> fset_of_list (sample_order_down (final_words sample_overshoot))
          = final_words sample_overshoot)
   \<and> trim_surplus sample_zipf sample_opts sample_order_up sample_overshoot
       = trim_surplus sample_zipf sample_opts sample_order_down sample_overshoot
   \<and> (distinct [''angle'', ''azure'', ''apple'']
      \<and> list_all (fullmatch (make_word_re 4 7)) [''angle'', ''azure'', ''apple'']
      \<and> (0::int) \<le> 2 \<and> (2::int) \<le> int (length [''angle'', ''azure'', ''apple'']))
   \<and> (length (trim_to_target sample_zipf [''angle'', ''azure'', ''apple''] 2 4 7) = nat 2
      \<and> set (trim_to_target sample_zipf [''angle'', ''azure'', ''apple''] 2 4 7)
          \<subseteq> set [''angle'', ''azure'', ''apple'']
      \<and> sorted_wrt (\<lambda>a b. (sample_zipf b, b) < (sample_zipf a, a))
           (trim_to_target sample_zipf [''angle'', ''azure'', ''apple''] 2 4 7)
      \<and> ''apple'' \<in> set (trim_to_target sample_zipf [''angle'', ''azure'', ''apple''] 2 4 7)
      \<and> ''azure'' \<in> set [''angle'', ''azure'', ''apple'']
                  - set (trim_to_target sample_zipf [''angle'', ''azure'', ''apple''] 2 4 7)
      \<and> (sample_zipf ''azure'', ''azure'') < (sample_zipf ''apple'', ''apple''))"
proof -
  note ranked = trim_to_target_ranked [of "[''angle'', ''azure'', ''apple'']"
      "[''apple'', ''azure'', ''angle'']" sample_zipf 2 4 7
      sample_order_up sample_overshoot sample_order_down sample_opts]
  have h1: "distinct [''angle'', ''azure'', ''apple'']
      \<and> distinct [''apple'', ''azure'', ''angle'']
      \<and> set [''angle'', ''azure'', ''apple''] = set [''apple'', ''azure'', ''angle'']"
    by code_simp
  note c1 = ranked [THEN conjunct1, THEN mp, OF h1]
  have v: "trim_to_target sample_zipf [''angle'', ''azure'', ''apple''] 2 4 7
       = [''apple'', ''angle'']"
    by code_simp
  have h2: "distinct (sample_order_up (final_words sample_overshoot))
      \<and> distinct (sample_order_down (final_words sample_overshoot))
      \<and> fset_of_list (sample_order_up (final_words sample_overshoot))
          = final_words sample_overshoot
      \<and> fset_of_list (sample_order_down (final_words sample_overshoot))
          = final_words sample_overshoot"
    by code_simp
  note c2 = ranked [THEN conjunct2, THEN conjunct1, THEN mp, OF h2]
  have h3a: "distinct [''angle'', ''azure'', ''apple'']"
    by code_simp
  have h3b: "list_all (fullmatch (make_word_re 4 7)) [''angle'', ''azure'', ''apple'']"
    by code_simp
  have h3c: "(0::int) \<le> 2"
    by simp
  have h3d: "(2::int) \<le> int (length [''angle'', ''azure'', ''apple''])"
    by simp
  have h3: "distinct [''angle'', ''azure'', ''apple'']
      \<and> list_all (fullmatch (make_word_re 4 7)) [''angle'', ''azure'', ''apple'']
      \<and> (0::int) \<le> 2 \<and> (2::int) \<le> int (length [''angle'', ''azure'', ''apple''])"
    by (intro conjI h3a h3b h3c h3d)
  note c3 = ranked [THEN conjunct2, THEN conjunct2, THEN mp, OF h3]
  note c3n = c3 [THEN conjunct1]
  note c3a = c3 [THEN conjunct2, THEN conjunct1]
  note c3b = c3 [THEN conjunct2, THEN conjunct2, THEN conjunct1]
  have m1: "''apple'' \<in> set (trim_to_target sample_zipf
      [''angle'', ''azure'', ''apple''] 2 4 7)"
    by code_simp
  have m2: "''azure'' \<in> set [''angle'', ''azure'', ''apple'']
                  - set (trim_to_target sample_zipf [''angle'', ''azure'', ''apple''] 2 4 7)"
    by code_simp
  note c3c = c3 [THEN conjunct2, THEN conjunct2, THEN conjunct2, THEN bspec, OF m1,
      THEN bspec, OF m2]
  show ?thesis
    by (intro conjI h1 [THEN conjunct1] h1 [THEN conjunct2, THEN conjunct1]
        h1 [THEN conjunct2, THEN conjunct2] c1 v h2 [THEN conjunct1]
        h2 [THEN conjunct2, THEN conjunct1] h2 [THEN conjunct2, THEN conjunct2, THEN conjunct1]
        h2 [THEN conjunct2, THEN conjunct2, THEN conjunct2] c2 h3a h3b h3c h3d
        c3n c3a c3b m1 m2 c3c)
qed
section \<open>Properties of the refinement pipeline\<close>

subsection \<open>The length of the working list\<close>

lemma py_remove_length:
  "py_remove x xs = Inr ys \<Longrightarrow> Suc (length ys) = length xs"
  by (auto simp: py_remove_def length_remove1 split: if_splits)
     (metis One_nat_def Suc_pred length_pos_if_in_set)

lemma purge_one_length:
  "purge_one st bw = Inr st' \<Longrightarrow> length (words st') = length (words st)"
  by (auto simp: purge_one_def Let_def split: sum.splits dest: py_remove_length)

lemma purge_length:
  "purge st bws = Inr st' \<Longrightarrow> length (words st') = length (words st)"
proof (induction bws arbitrary: st)
  case Nil
  then show ?case by simp
next
  case (Cons bw bws)
  then show ?case
    by (auto split: sum.splits dest: purge_one_length)
qed

lemma apply_verdict_length:
  "apply_verdict zipf fp thr st rec = Inr st' \<Longrightarrow> length (words st') = length (words st)"
  by (auto simp: apply_verdict_def Let_def split: if_splits sum.splits option.splits
        dest: py_remove_length)

lemma apply_verdict_keep:
  "lower (rec_word rec) |\<notin>| wordset st \<or> rec_keep rec \<Longrightarrow>
     apply_verdict zipf fp thr st rec = Inr st"
  by (auto simp: apply_verdict_def Let_def)

lemma apply_verdict_remove:
  assumes "apply_verdict zipf fp thr st rec = Inr st'"
    and "lower (rec_word rec) |\<in>| wordset st" and "\<not> rec_keep rec"
  shows "\<exists>ws e. py_remove (lower (rec_word rec)) (words st) = Inr ws \<and> words st' = ws @ [e]
           \<and> (e = placeholder (lower (rec_word rec)) \<or> suitable zipf fp thr (bloom st) e)"
  using assms
  by (auto simp: apply_verdict_def Let_def split: sum.splits option.splits dest: find_Some_iff[THEN iffD1])

lemma apply_results_length:
  "apply_results zipf fp thr st recs = Inr st' \<Longrightarrow> length (words st') = length (words st)"
proof (induction recs arbitrary: st)
  case Nil
  then show ?case by simp
next
  case (Cons rec recs)
  then show ?case
    by (auto split: sum.splits dest: apply_verdict_length)
qed

lemma process_batch_length:
  "process_batch zipf fp api ropts st batch = Inr st' \<Longrightarrow>
     length (words st') = length (words st)"
  by (auto simp: process_batch_def split: prod.splits sum.splits arguments.splits
        dest: apply_results_length)

lemma process_batches_length:
  "process_batches zipf fp api ropts st batches = Inr st' \<Longrightarrow>
     length (words st') = length (words st)"
proof (induction batches arbitrary: st)
  case Nil
  then show ?case by simp
next
  case (Cons batch batches)
  then show ?case
    by (auto split: sum.splits dest: process_batch_length)
qed

lemma fill_placeholders_length:
  "fill_placeholders zipf fp thr pool bl ws = (ws', bl') \<Longrightarrow> length ws' = length ws"
proof (induction ws arbitrary: pool bl ws' bl')
  case Nil
  then show ?case by simp
next
  case (Cons w ws)
  then show ?case
    by (auto split: if_splits prod.splits option.splits)
qed

lemma refine_run_length:
  assumes "refine_run zipf fp api common_pool ropts input_lines = Inr st"
  shows "length (words st) = 65536"
proof -
  let ?ws = "map (\<lambda>w. lower (strip w)) (filter (\<lambda>w. strip w \<noteq> []) input_lines)"
  let ?st0 = "\<lparr>words = ?ws, wordset = fset_of_list ?ws, bloom = fset_of_list ?ws,
                placeholders = [], log_rows = [], api_calls = 0\<rparr>"
  from assms have len: "length ?ws = 65536"
    by (auto simp: refine_run_def Let_def split: if_splits)
  from assms len obtain st1 where
    p: "purge ?st0 (filter (\<lambda>bw. bw |\<in>| wordset ?st0) BANNED) = Inr st1"
    by (auto simp: refine_run_def Let_def split: if_splits sum.splits)
  let ?cands = "filter (\<lambda>w. \<not> obvious_bad zipf w (refine_freq_threshold ropts)
                                \<and> \<not> PLACEHOLDER_RE_match w) (words st1)"
  from assms len p obtain batches where c: "chunked ?cands (batch_size ropts) = Inr batches"
    by (auto simp: refine_run_def Let_def split: if_splits sum.splits)
  from assms len p c obtain st2 where
    b: "process_batches zipf fp api ropts st1 batches = Inr st2"
    by (auto simp: refine_run_def Let_def split: if_splits sum.splits)
  from purge_length[OF p] len have l1: "length (words st1) = 65536" by simp
  with process_batches_length[OF b] have l2: "length (words st2) = 65536" by simp
  show ?thesis
  proof (cases "placeholders st2 = []")
    case True
    with assms len p c b have "st = st2"
      by (simp add: refine_run_def Let_def)
    with l2 show ?thesis by simp
  next
    case False
    obtain ws' bl' where f: "fill_placeholders zipf fp (refine_freq_threshold ropts)
        (filter isalpha common_pool) (bloom st2) (words st2) = (ws', bl')"
      by (cases "fill_placeholders zipf fp (refine_freq_threshold ropts)
        (filter isalpha common_pool) (bloom st2) (words st2)")
    with assms len p c b False have "st = st2\<lparr>words := ws', bloom := bl'\<rparr>"
      by (simp add: refine_run_def Let_def)
    with fill_placeholders_length[OF f] l2 show ?thesis by simp
  qed
qed

lemma purge_keeps:
  "purge st bws = Inr st' \<Longrightarrow> x \<in> set (words st) \<Longrightarrow> x \<notin> set bws \<Longrightarrow> x \<in> set (words st')"
proof (induction bws arbitrary: st)
  case Nil
  then show ?case by simp
next
  case (Cons bw bws)
  from Cons.prems(1) obtain st1 where
    one: "purge_one st bw = Inr st1" and rest: "purge st1 bws = Inr st'"
    by (auto split: sum.splits)
  from one Cons.prems(2,3) have "x \<in> set (words st1)"
    by (auto simp: purge_one_def py_remove_def Let_def split: if_splits)
  with Cons.IH[OF rest] Cons.prems(3) show ?case by simp
qed

lemma purge_places:
  "purge st bws = Inr st' \<Longrightarrow> bw \<in> set bws \<Longrightarrow> placeholder bw \<notin> set bws \<Longrightarrow>
     placeholder bw \<in> set (words st')"
proof (induction bws arbitrary: st)
  case Nil
  then show ?case by simp
next
  case (Cons b bws)
  from Cons.prems(1) obtain st1 where
    one: "purge_one st b = Inr st1" and rest: "purge st1 bws = Inr st'"
    by (auto split: sum.splits)
  show ?case
  proof (cases "bw = b")
    case True
    with one have "placeholder bw \<in> set (words st1)"
      by (auto simp: purge_one_def py_remove_def Let_def split: if_splits)
    with rest Cons.prems(3) show ?thesis
      by (auto dest: purge_keeps)
  next
    case False
    with Cons.prems(2,3) have "bw \<in> set bws" "placeholder bw \<notin> set bws" by simp_all
    from Cons.IH[OF rest this] show ?thesis .
  qed
qed

lemma purge_total:
  "distinct bws \<Longrightarrow> set bws \<subseteq> set (words st) \<Longrightarrow> \<exists>st'. purge st bws = Inr st'"
proof (induction bws arbitrary: st)
  case Nil
  then show ?case by simp
next
  case (Cons b bws)
  let ?st1 = "st\<lparr>words := remove1 b (words st) @ [placeholder b],
                 wordset := finsert (placeholder b) (wordset st |-| {|b|}),
                 bloom := finsert (placeholder b) (bloom st),
                 placeholders := placeholders st @ [placeholder b]\<rparr>"
  from Cons.prems have one: "purge_one st b = Inr ?st1"
    by (simp add: purge_one_def py_remove_def Let_def)
  have "set bws \<subseteq> set (words ?st1)"
  proof
    fix x assume "x \<in> set bws"
    with Cons.prems have "x \<noteq> b" "x \<in> set (words st)" by auto
    then have "x \<in> set (remove1 b (words st))" by (simp add: in_set_remove1)
    then show "x \<in> set (words ?st1)" by simp
  qed
  with Cons.IH[of ?st1] Cons.prems(1) obtain st' where "purge ?st1 bws = Inr st'"
    by auto
  with one show ?case by simp
qed

lemma purge_bloom:
  "purge st bws = Inr st' \<Longrightarrow> bloom st |\<subseteq>| bloom st' \<and>
     placeholders st' = placeholders st @ map placeholder bws"
proof (induction bws arbitrary: st)
  case Nil
  then show ?case by simp
next
  case (Cons b bws)
  from Cons.prems(1) obtain st1 where
    one: "purge_one st b = Inr st1" and rest: "purge st1 bws = Inr st'"
    by (auto split: sum.splits)
  from one have "bloom st |\<subseteq>| bloom st1" "placeholders st1 = placeholders st @ [placeholder b]"
    by (auto simp: purge_one_def Let_def split: sum.splits)
  with Cons.IH[OF rest] show ?case by auto
qed

lemma apply_results_keep:
  "list_all rec_keep recs \<Longrightarrow> apply_results zipf fp thr st recs = Inr st"
  by (induction recs) (simp_all add: apply_verdict_def Let_def)

lemma process_batch_keep_all:
  assumes "0 < refine_max_retries ropts"
  shows "process_batch zipf fp keep_all ropts st batch = Inr (st\<lparr>api_calls := Suc (api_calls st)\<rparr>)"
proof -
  from assms obtain n where n: "nat (refine_max_retries ropts) = Suc n"
    by (cases "nat (refine_max_retries ropts)") auto
  have "list_all rec_keep (map (\<lambda>w. \<lparr>rec_word = w, rec_keep = True, rec_reason = [],
                                     rec_replacements = []\<rparr>) batch)"
    by (simp add: list_all_iff)
  then show ?thesis
    by (simp add: process_batch_def n keep_all_def apply_results_keep)
qed

lemma process_batches_keep_all:
  assumes "0 < refine_max_retries ropts"
  shows "process_batches zipf fp keep_all ropts st batches
           = Inr (st\<lparr>api_calls := api_calls st + length batches\<rparr>)"
proof (induction batches arbitrary: st)
  case Nil
  then show ?case by simp
next
  case (Cons batch batches)
  then show ?case
    by (simp add: process_batch_keep_all[OF assms])
qed

lemma next_candidate_none:
  "\<forall>c\<in>set pool. in_bloom fp bl c \<or> obvious_bad zipf c thr \<Longrightarrow>
     next_candidate zipf fp thr bl pool = (None, [])"
  by (induction pool) auto

lemma fill_exhausted:
  "\<forall>c\<in>set pool. in_bloom fp bl c \<or> obvious_bad zipf c thr \<Longrightarrow>
     fill_placeholders zipf fp thr pool bl ws = (ws, bl)"
proof (induction ws arbitrary: pool)
  case Nil
  then show ?case by simp
next
  case (Cons w ws)
  from Cons.prems have none: "next_candidate zipf fp thr bl pool = (None, [])"
    by (rule next_candidate_none)
  have "fill_placeholders zipf fp thr [] bl ws = (ws, bl)"
    by (rule Cons.IH) simp
  with none Cons.IH[OF Cons.prems] show ?case by simp
qed

lemma banned_distinct: "distinct BANNED"
  by code_simp

lemma banned_placeholder: "list_all (\<lambda>bw. placeholder bw \<notin> set BANNED) BANNED"
  by code_simp

lemma refine_placeholder_survives:
  fixes input_lines :: "string list"
  defines "ws \<equiv> map (\<lambda>w. lower (strip w)) (filter (\<lambda>w. strip w \<noteq> []) input_lines)"
  assumes len: "length (filter (\<lambda>w. strip w \<noteq> []) input_lines) = 65536"
    and bad: "bw \<in> set BANNED" "bw \<in> set ws"
    and pool: "set common_pool \<subseteq> set ws"
    and opts: "0 < refine_max_retries ropts" "0 < batch_size ropts"
  shows "\<exists>st. refine_run zipf fp keep_all common_pool ropts input_lines = Inr st
           \<and> refine_wordlist zipf fp keep_all common_pool ropts input_lines
               = Inr (sort (words st))
           \<and> length (words st) = 65536 \<and> placeholder bw \<in> set (words st)"
proof -
  let ?st0 = "\<lparr>words = ws, wordset = fset_of_list ws, bloom = fset_of_list ws,
                placeholders = [], log_rows = [], api_calls = 0\<rparr>"
  let ?B = "filter (\<lambda>bw. bw |\<in>| wordset ?st0) BANNED"
  from len have lws: "length ws = 65536" by (simp add: ws_def)
  have "distinct ?B" using banned_distinct by simp
  moreover have "set ?B \<subseteq> set (words ?st0)" by (auto simp: fset_of_list.rep_eq)
  ultimately obtain st1 where p: "purge ?st0 ?B = Inr st1"
    using purge_total by blast
  from bad have inB: "bw \<in> set ?B" by (simp add: fset_of_list.rep_eq)
  from inB banned_placeholder have "placeholder bw \<notin> set ?B"
    by (auto simp: list_all_iff)
  from purge_places[OF p inB this] have ph1: "placeholder bw \<in> set (words st1)" .
  from purge_length[OF p] lws have l1: "length (words st1) = 65536" by simp
  from inB have "?B \<noteq> []" by (metis empty_iff list.set(1))
  with purge_bloom[OF p] have bl1: "fset_of_list ws |\<subseteq>| bloom st1"
    and pl1: "placeholders st1 \<noteq> []"
    by simp_all
  let ?cands = "filter (\<lambda>w. \<not> obvious_bad zipf w (refine_freq_threshold ropts)
                                \<and> \<not> PLACEHOLDER_RE_match w) (words st1)"
  let ?batches = "chunks (nat (batch_size ropts) - 1) ?cands"
  from opts(2) have c: "chunked ?cands (batch_size ropts) = Inr ?batches"
    by (simp add: chunked_def)
  let ?st2 = "st1\<lparr>api_calls := api_calls st1 + length ?batches\<rparr>"
  have b: "process_batches zipf fp keep_all ropts st1 ?batches = Inr ?st2"
    by (rule process_batches_keep_all[OF opts(1)])
  have "\<forall>c\<in>set (filter isalpha common_pool). in_bloom fp (bloom ?st2) c
           \<or> obvious_bad zipf c (refine_freq_threshold ropts)"
    using pool bl1 by (auto simp: in_bloom_def fset_of_list.rep_eq less_eq_fset.rep_eq)
  then have f: "fill_placeholders zipf fp (refine_freq_threshold ropts)
        (filter isalpha common_pool) (bloom ?st2) (words ?st2) = (words ?st2, bloom ?st2)"
    by (rule fill_exhausted)
  have run: "refine_run zipf fp keep_all common_pool ropts input_lines
      = Inr (?st2\<lparr>words := words ?st2, bloom := bloom ?st2\<rparr>)"
    unfolding refine_run_def Let_def ws_def[symmetric]
    using lws p c b f pl1 by simp
  then have "refine_wordlist zipf fp keep_all common_pool ropts input_lines
      = Inr (sort (words (?st2\<lparr>words := words ?st2, bloom := bloom ?st2\<rparr>)))"
    using l1 by (simp add: refine_wordlist_def)
  with run l1 ph1 show ?thesis by simp
qed

lemma strip_nonempty:
  assumes "\<not> char_isspace c"
  shows "strip (c # s) \<noteq> []"
proof -
  have "dropWhile char_isspace (c # s) = c # s" using assms by simp
  moreover have "dropWhile char_isspace (rev (c # s)) \<noteq> []"
    using assms by (auto simp: dropWhile_eq_Nil_conv)
  ultimately show ?thesis by (simp add: strip_def)
qed

lemma strip_nth_word: "strip (nth_word i) \<noteq> []"
proof -
  have "\<not> char_isspace CHR ''w''" by code_simp
  then show ?thesis unfolding nth_word_def by (rule strip_nonempty)
qed

lemma sample_lines_nonblank: "filter (\<lambda>w. strip w \<noteq> []) sample_lines = sample_lines"
proof -
  have "list_all (\<lambda>w. strip w \<noteq> []) [''damn'', ''the'', ''of'', ''and'']" by code_simp
  then have "\<forall>w\<in>set sample_lines. strip w \<noteq> []"
    by (auto simp: sample_lines_def strip_nth_word list_all_iff)
  then show ?thesis by simp
qed

lemma sample_lines_length: "length sample_lines = 65536"
  by (simp add: sample_lines_def)

lemma sample_lines_known:
  "set [''damn'', ''the'', ''of'', ''and'']
     \<subseteq> set (map (\<lambda>w. lower (strip w)) (filter (\<lambda>w. strip w \<noteq> []) sample_lines))"
proof -
  have "map (\<lambda>w. lower (strip w)) [''damn'', ''the'', ''of'', ''and'']
          = [''damn'', ''the'', ''of'', ''and'']"
    by code_simp
  then show ?thesis
    unfolding sample_lines_nonblank by (simp add: sample_lines_def)
qed

lemma sample_refine:
  "\<exists>st. refine_run all_frequent no_fp keep_all sample_pool sample_ropts sample_lines = Inr st
     \<and> refine_wordlist all_frequent no_fp keep_all sample_pool sample_ropts sample_lines
         = Inr (sort (words st))
     \<and> length (words st) = 65536 \<and> placeholder ''damn'' \<in> set (words st)"
proof (rule refine_placeholder_survives)
  show "length (filter (\<lambda>w. strip w \<noteq> []) sample_lines) = 65536"
    by (simp only: sample_lines_nonblank sample_lines_length)
  show "''damn'' \<in> set BANNED" by code_simp
  show "''damn'' \<in> set (map (\<lambda>w. lower (strip w)) (filter (\<lambda>w. strip w \<noteq> []) sample_lines))"
    using sample_lines_known by simp
  show "set sample_pool
     \<subseteq> set (map (\<lambda>w. lower (strip w)) (filter (\<lambda>w. strip w \<noteq> []) sample_lines))"
    using sample_lines_known by (simp add: sample_pool_def)
  show "0 < refine_max_retries sample_ropts" "0 < batch_size sample_ropts"
    by (simp_all add: sample_ropts_def)
qed

lemma call_classifier_all_errors:
  "\<forall>j<n. api (k + j) batch = ChatError \<Longrightarrow>
     call_classifier api batch k n
       = (Inl (SystemExit ''Too many consecutive OpenAI errors; aborting.''), k + n)"
proof (induction n arbitrary: k)
  case 0
  then show ?case by simp
next
  case (Suc n)
  from Suc.prems have "api k batch = ChatError" by (metis add.right_neutral zero_less_Suc)
  moreover from Suc.prems have "\<forall>j<n. api (Suc k + j) batch = ChatError"
    by (metis Suc_less_eq add_Suc_shift)
  ultimately show ?case using Suc.IH[of "Suc k"] by simp
qed

lemma call_classifier_retry:
  "\<forall>i<j. api (k + i) batch = ChatError \<Longrightarrow> api (k + j) batch = ChatReply a \<Longrightarrow> j < n \<Longrightarrow>
     call_classifier api batch k n = (Inr a, k + j + 1)"
proof (induction j arbitrary: k n)
  case 0
  then obtain m where "n = Suc m" by (cases n) auto
  with 0 show ?case by simp
next
  case (Suc j)
  then obtain m where n: "n = Suc m" "j < m" by (cases n) auto
  from Suc.prems(1) have e: "api k batch = ChatError" by (metis add.right_neutral zero_less_Suc)
  from Suc.prems(1) have "\<forall>i<j. api (Suc k + i) batch = ChatError"
    by (metis Suc_less_eq add_Suc_shift)
  moreover from Suc.prems(2) have "api (Suc k + j) batch = ChatReply a" by simp
  ultimately have "call_classifier api batch (Suc k) m = (Inr a, Suc k + j + 1)"
    using n(2) by (rule Suc.IH)
  with e n show ?case by simp
qed

lemma apply_verdict_others:
  "apply_verdict zipf fp thr st rec = Inr st' \<Longrightarrow> w \<in> set (words st) \<Longrightarrow>
     w \<noteq> lower (rec_word rec) \<Longrightarrow> w \<in> set (words st')"
  by (auto simp: apply_verdict_def py_remove_def Let_def in_set_remove1
        split: if_splits sum.splits option.splits)

lemma apply_results_others:
  "apply_results zipf fp thr st recs = Inr st' \<Longrightarrow> w \<in> set (words st) \<Longrightarrow>
     w \<notin> set (map (\<lambda>r. lower (rec_word r)) recs) \<Longrightarrow> w \<in> set (words st')"
proof (induction recs arbitrary: st)
  case Nil
  then show ?case by simp
next
  case (Cons rec recs)
  from Cons.prems(1) obtain st1 where
    one: "apply_verdict zipf fp thr st rec = Inr st1"
    and rest: "apply_results zipf fp thr st1 recs = Inr st'"
    by (auto split: sum.splits)
  from Cons.prems(2,3) have "w \<in> set (words st1)"
    by (auto intro: apply_verdict_others[OF one])
  with Cons.IH[OF rest] Cons.prems(3) show ?case by simp
qed

subsection \<open>The ways out of the pipeline\<close>

lemma purge_error: "purge st bws = Inl e \<Longrightarrow> e = ValueError"
proof (induction bws arbitrary: st)
  case Nil
  then show ?case by simp
next
  case (Cons bw bws)
  then show ?case
    by (auto simp: purge_one_def py_remove_def Let_def split: sum.splits if_splits)
qed

lemma apply_verdict_error: "apply_verdict zipf fp thr st rec = Inl e \<Longrightarrow> e = ValueError"
  by (auto simp: apply_verdict_def py_remove_def Let_def
        split: sum.splits if_splits option.splits)

lemma apply_results_error: "apply_results zipf fp thr st recs = Inl e \<Longrightarrow> e = ValueError"
proof (induction recs arbitrary: st)
  case Nil
  then show ?case by simp
next
  case (Cons rec recs)
  then show ?case
    by (auto split: sum.splits dest: apply_verdict_error)
qed

lemma call_classifier_error:
  "call_classifier api batch k n = (Inl e, k') \<Longrightarrow>
     e = SystemExit ''Too many consecutive OpenAI errors; aborting.''"
proof (induction n arbitrary: k)
  case 0
  then show ?case by simp
next
  case (Suc n)
  then show ?case by (cases "api k batch") auto
qed

lemma process_batch_error:
  assumes "process_batch zipf fp api ropts st batch = Inl e"
  shows "e \<in> {ValueError, AttributeError,
              SystemExit ''Too many consecutive OpenAI errors; aborting.''}"
proof -
  obtain r k where c: "call_classifier api batch (api_calls st)
      (nat (refine_max_retries ropts)) = (r, k)"
    by (cases "call_classifier api batch (api_calls st) (nat (refine_max_retries ropts))")
  show ?thesis
  proof (cases r)
    case (Inl e')
    with c assms have "e = e'" by (simp add: process_batch_def)
    with c Inl call_classifier_error show ?thesis by blast
  next
    case (Inr a)
    with c assms show ?thesis
      by (cases a) (auto simp: process_batch_def dest: apply_results_error)
  qed
qed

lemma process_batches_error:
  "process_batches zipf fp api ropts st batches = Inl e \<Longrightarrow>
     e \<in> {ValueError, AttributeError,
          SystemExit ''Too many consecutive OpenAI errors; aborting.''}"
proof (induction batches arbitrary: st)
  case Nil
  then show ?case by simp
next
  case (Cons batch batches)
  show ?case
  proof (cases "process_batch zipf fp api ropts st batch")
    case (Inl e')
    with Cons.prems have "e = e'" by simp
    with Inl show ?thesis by (auto dest: process_batch_error)
  next
    case (Inr st1)
    with Cons.prems have "process_batches zipf fp api ropts st1 batches = Inl e" by simp
    then show ?thesis by (rule Cons.IH)
  qed
qed

lemma refine_run_error:
  assumes "refine_run zipf fp api common_pool ropts input_lines = Inl e"
  shows "e \<in> {SystemExit ''Input list needs 65 536 words'', ValueError, AttributeError,
              SystemExit ''Too many consecutive OpenAI errors; aborting.''}"
proof -
  let ?ws = "map (\<lambda>w. lower (strip w)) (filter (\<lambda>w. strip w \<noteq> []) input_lines)"
  let ?st0 = "\<lparr>words = ?ws, wordset = fset_of_list ?ws, bloom = fset_of_list ?ws,
                placeholders = [], log_rows = [], api_calls = 0\<rparr>"
  show ?thesis
  proof (cases "length ?ws \<noteq> 65536")
    case True
    with assms show ?thesis by (simp add: refine_run_def Let_def)
  next
    case len: False
    show ?thesis
    proof (cases "purge ?st0 (filter (\<lambda>bw. bw |\<in>| wordset ?st0) BANNED)")
      case (Inl e')
      with assms len have "e = e'" by (simp add: refine_run_def Let_def)
      with Inl show ?thesis by (auto dest: purge_error)
    next
      case p: (Inr st1)
      let ?cands = "filter (\<lambda>w. \<not> obvious_bad zipf w (refine_freq_threshold ropts)
                                \<and> \<not> PLACEHOLDER_RE_match w) (words st1)"
      show ?thesis
      proof (cases "chunked ?cands (batch_size ropts)")
        case (Inl e')
        with assms len p have "e = e'" by (simp add: refine_run_def Let_def)
        with Inl show ?thesis by (auto simp: chunked_def split: if_splits)
      next
        case c: (Inr batches)
        show ?thesis
        proof (cases "process_batches zipf fp api ropts st1 batches")
          case (Inl e')
          with assms len p c have "e = e'" by (simp add: refine_run_def Let_def)
          with Inl show ?thesis by (auto dest: process_batches_error)
        next
          case (Inr st2)
          with assms len p c show ?thesis
            by (simp add: refine_run_def Let_def split: if_splits prod.splits)
        qed
      qed
    qed
  qed
qed

text \<open>
  Claim C10. The working list keeps its length of 65,536 from the load to the last check.
  The purge of a banned word removes the word and appends its placeholder. A verdict on a
  word that is not in \<open>wordset\<close>, or a verdict to keep, leaves the state as it is; a
  verdict to remove takes the word out and appends one entry, a suggested replacement that
  passed the checks or else the placeholder of the word. So the state that the last check
  sees has as many words as were loaded, 65,536, and \<open>refine_wordlist\<close> never leaves
  through that check.
\<close>

theorem length_invariant:
  "(purge_one st bw = Inr st1
      \<longrightarrow> length (words st1) = length (words st)
        \<and> (\<exists>ws. py_remove bw (words st) = Inr ws \<and> words st1 = ws @ [placeholder bw]))
   \<and> (apply_verdict zipf fp thr st rec = Inr st2
      \<longrightarrow> length (words st2) = length (words st)
        \<and> (lower (rec_word rec) |\<notin>| wordset st \<or> rec_keep rec \<longrightarrow> st2 = st)
        \<and> (lower (rec_word rec) |\<in>| wordset st \<and> \<not> rec_keep rec
           \<longrightarrow> (\<exists>ws e. py_remove (lower (rec_word rec)) (words st) = Inr ws
                  \<and> words st2 = ws @ [e]
                  \<and> (e = placeholder (lower (rec_word rec))
                     \<or> suitable zipf fp thr (bloom st) e))))
   \<and> (refine_run zipf fp api common_pool ropts input_lines = Inr st3
      \<longrightarrow> length (words st3) = 65536
        \<and> length (map (\<lambda>w. lower (strip w)) (filter (\<lambda>w. strip w \<noteq> []) input_lines))
            = 65536)
   \<and> refine_wordlist zipf fp api common_pool ropts input_lines
        \<noteq> Inl (SystemExit ''Length drifted'')"
proof (intro conjI impI)
  assume p: "purge_one st bw = Inr st1"
  then show "length (words st1) = length (words st)" by (rule purge_one_length)
  from p show "\<exists>ws. py_remove bw (words st) = Inr ws \<and> words st1 = ws @ [placeholder bw]"
    by (auto simp: purge_one_def Let_def split: sum.splits)
next
  assume v: "apply_verdict zipf fp thr st rec = Inr st2"
  then show "length (words st2) = length (words st)" by (rule apply_verdict_length)
  {
    assume "lower (rec_word rec) |\<notin>| wordset st \<or> rec_keep rec"
    then have "apply_verdict zipf fp thr st rec = Inr st" by (rule apply_verdict_keep)
    with v show "st2 = st" by simp
  }
  {
    assume "lower (rec_word rec) |\<in>| wordset st \<and> \<not> rec_keep rec"
    with v show "\<exists>ws e. py_remove (lower (rec_word rec)) (words st) = Inr ws
                  \<and> words st2 = ws @ [e]
                  \<and> (e = placeholder (lower (rec_word rec))
                     \<or> suitable zipf fp thr (bloom st) e)"
      using apply_verdict_remove by blast
  }
next
  assume r: "refine_run zipf fp api common_pool ropts input_lines = Inr st3"
  then show "length (words st3) = 65536" by (rule refine_run_length)
  from r show "length (map (\<lambda>w. lower (strip w)) (filter (\<lambda>w. strip w \<noteq> []) input_lines))
            = 65536"
    by (auto simp: refine_run_def Let_def split: if_splits)
next
  show "refine_wordlist zipf fp api common_pool ropts input_lines
        \<noteq> Inl (SystemExit ''Length drifted'')"
  proof (cases "refine_run zipf fp api common_pool ropts input_lines")
    case (Inl e)
    then have "e \<noteq> SystemExit ''Length drifted''"
      by (auto dest: refine_run_error)
    with Inl show ?thesis by (simp add: refine_wordlist_def)
  next
    case (Inr st)
    with refine_run_length[OF Inr] show ?thesis by (simp add: refine_wordlist_def)
  qed
qed

lemma small_purge:
  "purge_one small_state ''damn''
   = Inr \<lparr>words = [''able'', ''zzzq'', ''_missing_damn_''],
          wordset = {|''_missing_damn_'', ''able'', ''zzzq''|},
          bloom = {|''_missing_damn_'', ''damn'', ''able'', ''zzzq''|},
          placeholders = [''_missing_damn_''], log_rows = [], api_calls = 0\<rparr>"
  by code_simp

lemma small_remove:
  "apply_verdict all_frequent no_fp (7/2) small_state verdict_remove
   = Inr \<lparr>words = [''damn'', ''able'', ''apple''],
          wordset = {|''apple'', ''damn'', ''able''|},
          bloom = {|''apple'', ''damn'', ''able'', ''zzzq''|},
          placeholders = [], log_rows = [(''zzzq'', ''apple'', ''not a word'')],
          api_calls = 0\<rparr>"
  by code_simp

lemma small_keep:
  "apply_verdict all_frequent no_fp (7/2) small_state verdict_keep = Inr small_state"
  by code_simp

theorem length_invariant_witness:
  "(purge_one small_state ''damn''
      = Inr \<lparr>words = [''able'', ''zzzq'', ''_missing_damn_''],
             wordset = {|''_missing_damn_'', ''able'', ''zzzq''|},
             bloom = {|''_missing_damn_'', ''damn'', ''able'', ''zzzq''|},
             placeholders = [''_missing_damn_''], log_rows = [], api_calls = 0\<rparr>
    \<and> length [''able'', ''zzzq'', ''_missing_damn_''] = length (words small_state))
   \<and> (apply_verdict all_frequent no_fp (7/2) small_state verdict_remove
      = Inr \<lparr>words = [''damn'', ''able'', ''apple''],
             wordset = {|''apple'', ''damn'', ''able''|},
             bloom = {|''apple'', ''damn'', ''able'', ''zzzq''|},
             placeholders = [], log_rows = [(''zzzq'', ''apple'', ''not a word'')],
             api_calls = 0\<rparr>
    \<and> length [''damn'', ''able'', ''apple''] = length (words small_state)
    \<and> lower (rec_word verdict_remove) |\<in>| wordset small_state
    \<and> \<not> rec_keep verdict_remove)
   \<and> (apply_verdict all_frequent no_fp (7/2) small_state verdict_keep = Inr small_state
    \<and> rec_keep verdict_keep)
   \<and> (case refine_run all_frequent no_fp keep_all sample_pool sample_ropts sample_lines of
         Inl e \<Rightarrow> False
       | Inr st \<Rightarrow> length (words st) = 65536)"
proof -
  let ?P = "\<lparr>words = [''able'', ''zzzq'', ''_missing_damn_''],
             wordset = {|''_missing_damn_'', ''able'', ''zzzq''|},
             bloom = {|''_missing_damn_'', ''damn'', ''able'', ''zzzq''|},
             placeholders = [''_missing_damn_''], log_rows = [], api_calls = 0\<rparr>"
  let ?R = "\<lparr>words = [''damn'', ''able'', ''apple''],
             wordset = {|''apple'', ''damn'', ''able''|},
             bloom = {|''apple'', ''damn'', ''able'', ''zzzq''|},
             placeholders = [], log_rows = [(''zzzq'', ''apple'', ''not a word'')],
             api_calls = 0\<rparr>"
  from sample_refine obtain st where
    run: "refine_run all_frequent no_fp keep_all sample_pool sample_ropts sample_lines = Inr st"
    by blast
  note inv = length_invariant [where st = small_state and bw = "''damn''" and ?st1.0 = ?P
      and zipf = all_frequent and fp = no_fp and thr = "7/2" and rec = verdict_remove
      and ?st2.0 = ?R and api = keep_all and common_pool = sample_pool and ropts = sample_ropts
      and input_lines = sample_lines and ?st3.0 = st]
  from inv [THEN conjunct1, THEN mp, OF small_purge]
  have a: "length [''able'', ''zzzq'', ''_missing_damn_''] = length (words small_state)"
    by simp
  from inv [THEN conjunct2, THEN conjunct1, THEN mp, OF small_remove]
  have b: "length [''damn'', ''able'', ''apple''] = length (words small_state)"
    by simp
  have c: "lower (rec_word verdict_remove) |\<in>| wordset small_state"
    "\<not> rec_keep verdict_remove" "rec_keep verdict_keep"
    by code_simp+
  from inv [THEN conjunct2, THEN conjunct2, THEN conjunct1, THEN mp, OF run]
  have "length (words st) = 65536" by simp
  with run have d: "case refine_run all_frequent no_fp keep_all sample_pool sample_ropts
      sample_lines of Inl e \<Rightarrow> False | Inr st \<Rightarrow> length (words st) = 65536"
    by simp
  show ?thesis
    by (intro conjI small_purge a small_remove b c small_keep d)
qed

subsection \<open>Placeholders in the output\<close>

text \<open>
  Claim C3. No line of a written output file should be a placeholder. The filler replaces a
  placeholder only while the pool still offers a word that is not in the Bloom filter and
  not obviously bad; nothing looks at the list again before it is written. On the sample
  input, whose banned word \<open>damn\<close> is purged at the start, the classifier keeps every
  word and the pool holds only words of the list: the run ends well, with 65,536 lines, and
  \<open>_missing_damn_\<close> is one of them.
\<close>

theorem placeholder_written:
  "(case refine_wordlist all_frequent no_fp keep_all sample_pool sample_ropts sample_lines of
      Inl e \<Rightarrow> False
    | Inr out \<Rightarrow> length out = 65536 \<and> ''_missing_damn_'' \<in> set out)
   \<and> PLACEHOLDER_RE_match ''_missing_damn_''"
proof
  have "placeholder ''damn'' = ''_missing_damn_''" by (simp add: placeholder_def)
  with sample_refine show "case refine_wordlist all_frequent no_fp keep_all sample_pool
      sample_ropts sample_lines of
      Inl e \<Rightarrow> False
    | Inr out \<Rightarrow> length out = 65536 \<and> ''_missing_damn_'' \<in> set out"
    by auto
  show "PLACEHOLDER_RE_match ''_missing_damn_''" by code_simp
qed

subsection \<open>Replies that fail\<close>

text \<open>
  Claim C4, as stated, has a reply that cannot be parsed retried, and fatal after the last
  retry. The code catches the parse error, prints a warning and goes on to the next batch:
  with a classifier whose replies never parse, a batch costs one call and leaves the state
  as it was, every word of the batch still in the list, and two batches cost two calls.
\<close>

theorem unparsable_reply_counterexample:
  "process_batch all_frequent no_fp garbled sample_ropts small_state [''able'', ''zzzq'']
     = Inr (small_state\<lparr>api_calls := 1\<rparr>)
   \<and> process_batches all_frequent no_fp garbled sample_ropts small_state
       [[''able''], [''zzzq'']]
     = Inr (small_state\<lparr>api_calls := 2\<rparr>)"
  by code_simp

text \<open>
  Claim C4, amended. A call of the classifier that raises an API error is retried, up to
  \<open>max_retries\<close> calls for a batch: the first reply is taken, and when every call raises,
  the batch ends the run with a fatal error, which no later batch undoes. A reply that
  cannot be parsed is not retried: the batch is skipped, the state stays as it was but for
  the count of calls, so all its words are kept. A reply that parses but says nothing about
  a word leaves that word in the list.
\<close>

theorem classifier_failures:
  "((\<forall>j<n. api (k + j) batch = ChatError)
      \<longrightarrow> call_classifier api batch k n
          = (Inl (SystemExit ''Too many consecutive OpenAI errors; aborting.''), k + n))
   \<and> ((\<forall>i<j. api (k + i) batch = ChatError) \<and> api (k + j) batch = ChatReply a \<and> j < n
      \<longrightarrow> call_classifier api batch k n = (Inr a, k + j + 1))
   \<and> (call_classifier api batch (api_calls st) (nat (refine_max_retries ropts)) = (Inl e, k')
      \<longrightarrow> process_batch zipf fp api ropts st batch = Inl e
        \<and> process_batches zipf fp api ropts st (batch # batches) = Inl e)
   \<and> (call_classifier api batch (api_calls st) (nat (refine_max_retries ropts))
        = (Inr Unparsable, k')
      \<longrightarrow> process_batch zipf fp api ropts st batch = Inr (st\<lparr>api_calls := k'\<rparr>))
   \<and> (apply_results zipf fp thr st recs = Inr st' \<and> w \<in> set (words st)
        \<and> w \<notin> set (map (\<lambda>r. lower (rec_word r)) recs)
      \<longrightarrow> w \<in> set (words st'))"
proof (intro conjI impI)
  assume "\<forall>j<n. api (k + j) batch = ChatError"
  then show "call_classifier api batch k n
          = (Inl (SystemExit ''Too many consecutive OpenAI errors; aborting.''), k + n)"
    by (rule call_classifier_all_errors)
next
  assume "(\<forall>i<j. api (k + i) batch = ChatError) \<and> api (k + j) batch = ChatReply a \<and> j < n"
  then show "call_classifier api batch k n = (Inr a, k + j + 1)"
    using call_classifier_retry by blast
next
  assume c: "call_classifier api batch (api_calls st) (nat (refine_max_retries ropts))
      = (Inl e, k')"
  then show b: "process_batch zipf fp api ropts st batch = Inl e"
    by (simp add: process_batch_def)
  then show "process_batches zipf fp api ropts st (batch # batches) = Inl e"
    by simp
next
  assume "call_classifier api batch (api_calls st) (nat (refine_max_retries ropts))
        = (Inr Unparsable, k')"
  then show "process_batch zipf fp api ropts st batch = Inr (st\<lparr>api_calls := k'\<rparr>)"
    by (simp add: process_batch_def)
next
  assume "apply_results zipf fp thr st recs = Inr st' \<and> w \<in> set (words st)
        \<and> w \<notin> set (map (\<lambda>r. lower (rec_word r)) recs)"
  then show "w \<in> set (words st')"
    using apply_results_others by blast
qed

lemma small_down:
  "call_classifier always_down [''able'', ''zzzq''] (api_calls small_state)
     (nat (refine_max_retries sample_ropts))
   = (Inl (SystemExit ''Too many consecutive OpenAI errors; aborting.''), 5)"
  by code_simp

lemma small_flaky:
  "call_classifier flaky [''able'', ''zzzq''] (api_calls small_state)
     (nat (refine_max_retries sample_ropts))
   = (Inr Unparsable, 3)"
  by code_simp

lemma small_results:
  "apply_results all_frequent no_fp (7/2) small_state [verdict_remove]
   = Inr \<lparr>words = [''damn'', ''able'', ''apple''],
          wordset = {|''apple'', ''damn'', ''able''|},
          bloom = {|''apple'', ''damn'', ''able'', ''zzzq''|},
          placeholders = [], log_rows = [(''zzzq'', ''apple'', ''not a word'')],
          api_calls = 0\<rparr>"
  by code_simp

theorem classifier_failures_witness:
  "(always_down 0 [''able'', ''zzzq''] = ChatError
      \<and> always_down 1 [''able'', ''zzzq''] = ChatError
      \<and> always_down 2 [''able'', ''zzzq''] = ChatError
      \<and> always_down 3 [''able'', ''zzzq''] = ChatError
      \<and> always_down 4 [''able'', ''zzzq''] = ChatError)
   \<and> call_classifier always_down [''able'', ''zzzq''] 0 5
       = (Inl (SystemExit ''Too many consecutive OpenAI errors; aborting.''), 0 + 5)
   \<and> (flaky 0 [''able'', ''zzzq''] = ChatError \<and> flaky 1 [''able'', ''zzzq''] = ChatError
      \<and> flaky 2 [''able'', ''zzzq''] = ChatReply Unparsable \<and> (2::nat) < 5)
   \<and> call_classifier flaky [''able'', ''zzzq''] 0 5 = (Inr Unparsable, 0 + 2 + 1)
   \<and> call_classifier always_down [''able'', ''zzzq''] (api_calls small_state)
        (nat (refine_max_retries sample_ropts))
       = (Inl (SystemExit ''Too many consecutive OpenAI errors; aborting.''), 5)
   \<and> process_batch all_frequent no_fp always_down sample_ropts small_state [''able'', ''zzzq'']
       = Inl (SystemExit ''Too many consecutive OpenAI errors; aborting.'')
   \<and> process_batches all_frequent no_fp always_down sample_ropts small_state
        [[''able'', ''zzzq''], [''damn'']]
       = Inl (SystemExit ''Too many consecutive OpenAI errors; aborting.'')
   \<and> call_classifier flaky [''able'', ''zzzq''] (api_calls small_state)
        (nat (refine_max_retries sample_ropts))
       = (Inr Unparsable, 3)
   \<and> process_batch all_frequent no_fp flaky sample_ropts small_state [''able'', ''zzzq'']
       = Inr (small_state\<lparr>api_calls := 3\<rparr>)
   \<and> (apply_results all_frequent no_fp (7/2) small_state [verdict_remove]
        = Inr \<lparr>words = [''damn'', ''able'', ''apple''],
               wordset = {|''apple'', ''damn'', ''able''|},
               bloom = {|''apple'', ''damn'', ''able'', ''zzzq''|},
               placeholders = [], log_rows = [(''zzzq'', ''apple'', ''not a word'')],
               api_calls = 0\<rparr>
      \<and> ''able'' \<in> set (words small_state)
      \<and> ''able'' \<notin> set (map (\<lambda>r. lower (rec_word r)) [verdict_remove]))
   \<and> ''able'' \<in> set [''damn'', ''able'', ''apple'']"
proof -
  let ?R = "\<lparr>words = [''damn'', ''able'', ''apple''],
               wordset = {|''apple'', ''damn'', ''able''|},
               bloom = {|''apple'', ''damn'', ''able'', ''zzzq''|},
               placeholders = [], log_rows = [(''zzzq'', ''apple'', ''not a word'')],
               api_calls = 0\<rparr>"
  note down = classifier_failures [where n = 5 and k = 0 and api = always_down
      and batch = "[''able'', ''zzzq'']" and st = small_state and ropts = sample_ropts
      and e = "SystemExit ''Too many consecutive OpenAI errors; aborting.''" and k' = 5
      and zipf = all_frequent and fp = no_fp and batches = "[[''damn'']]"]
  note retry = classifier_failures [where n = 5 and k = 0 and j = 2 and api = flaky
      and batch = "[''able'', ''zzzq'']" and a = Unparsable and st = small_state
      and ropts = sample_ropts and k' = 3 and zipf = all_frequent and fp = no_fp
      and thr = "7/2" and recs = "[verdict_remove]" and st' = ?R and w = "''able''"]
  have h1: "\<forall>j<5. always_down (0 + j) [''able'', ''zzzq''] = ChatError"
    by (simp add: always_down_def)
  note c1 = down [THEN conjunct1, THEN mp, OF h1]
  have h2: "(\<forall>i<2. flaky (0 + i) [''able'', ''zzzq''] = ChatError)
      \<and> flaky (0 + 2) [''able'', ''zzzq''] = ChatReply Unparsable \<and> (2::nat) < 5"
    by (simp add: flaky_def)
  note c2 = retry [THEN conjunct2, THEN conjunct1, THEN mp, OF h2]
  note c3 = down [THEN conjunct2, THEN conjunct2, THEN conjunct1, THEN mp, OF small_down]
  note c4 = retry [THEN conjunct2, THEN conjunct2, THEN conjunct2, THEN conjunct1, THEN mp,
      OF small_flaky]
  have h5: "apply_results all_frequent no_fp (7/2) small_state [verdict_remove] = Inr ?R
      \<and> ''able'' \<in> set (words small_state)
      \<and> ''able'' \<notin> set (map (\<lambda>r. lower (rec_word r)) [verdict_remove])"
    using small_results by code_simp
  from retry [THEN conjunct2, THEN conjunct2, THEN conjunct2, THEN conjunct2, THEN mp, OF h5]
  have c5: "''able'' \<in> set [''damn'', ''able'', ''apple'']" by simp
  have g1: "always_down 0 [''able'', ''zzzq''] = ChatError"
    "always_down 1 [''able'', ''zzzq''] = ChatError"
    "always_down 2 [''able'', ''zzzq''] = ChatError"
    "always_down 3 [''able'', ''zzzq''] = ChatError"
    "always_down 4 [''able'', ''zzzq''] = ChatError"
    by (simp_all add: always_down_def)
  have g2: "flaky 0 [''able'', ''zzzq''] = ChatError" "flaky 1 [''able'', ''zzzq''] = ChatError"
    "flaky 2 [''able'', ''zzzq''] = ChatReply Unparsable" "(2::nat) < 5"
    by (simp_all add: flaky_def)
  show ?thesis
    by (intro conjI g1 c1 g2 c2 small_down c3 [THEN conjunct1]
        c3 [THEN conjunct2] small_flaky c4 h5 [THEN conjunct1]
        h5 [THEN conjunct2, THEN conjunct1] h5 [THEN conjunct2, THEN conjunct2] c5)
qed

section \<open>Properties of the scripts that bring the dictionary to size\<close>

subsection \<open>How many words are written\<close>

lemma try_candidates_length:
  "length (try_candidates cs unique_words) \<le> length unique_words + length cs"
proof (induction cs arbitrary: unique_words)
  case Nil
  then show ?case by simp
next
  case (Cons c cs)
  have "length (try_candidates cs unique_words) \<le> length unique_words + length cs"
    "length (try_candidates cs (unique_words @ [c])) \<le> length (unique_words @ [c]) + length cs"
    by (rule Cons.IH)+
  then show ?case by auto
qed

lemma try_candidates_grows:
  "length unique_words \<le> length (try_candidates cs unique_words)"
proof (induction cs arbitrary: unique_words)
  case Nil
  then show ?case by simp
next
  case (Cons c cs)
  have "length unique_words \<le> length (try_candidates cs unique_words)"
    "length (unique_words @ [c]) \<le> length (try_candidates cs (unique_words @ [c]))"
    by (rule Cons.IH)+
  then show ?case by auto
qed

lemma each_base_length:
  assumes "\<And>b. length (candidates b) = 10"
  shows "length (each_base candidates bases unique_words)
           \<le> length unique_words + 10 * length bases"
proof (induction bases arbitrary: unique_words)
  case Nil
  then show ?case by simp
next
  case (Cons b bases)
  have "length (try_candidates (candidates b) unique_words) \<le> length unique_words + 10"
    using try_candidates_length[of "candidates b" unique_words] assms by simp
  with Cons[of "try_candidates (candidates b) unique_words"] show ?case by auto
qed

lemma each_object_length:
  "length (each_object color objs unique_words) \<le> length unique_words + length objs"
proof (induction objs arbitrary: unique_words)
  case Nil
  then show ?case by simp
next
  case (Cons obj objs)
  have "length (each_object color objs unique_words) \<le> length unique_words + length objs"
    "length (each_object color objs (unique_words @ [color @ obj]))
       \<le> length (unique_words @ [color @ obj]) + length objs"
    by (rule Cons.IH)+
  then show ?case by auto
qed

lemma each_color_length:
  "length (each_color cs unique_words) \<le> length unique_words + 10 * length cs"
proof (induction cs arbitrary: unique_words)
  case Nil
  then show ?case by simp
next
  case (Cons c cs)
  have "length (each_object c objects unique_words) \<le> length unique_words + 10"
    using each_object_length[of c objects unique_words] by (simp add: objects_def)
  with Cons[of "each_object c objects unique_words"] show ?case by auto
qed

lemma dedupe_length:
  "length (dedupe wanted unique_words ws) \<le> length unique_words + length ws"
proof (induction ws arbitrary: unique_words)
  case Nil
  then show ?case by simp
next
  case (Cons w ws)
  have "length (dedupe wanted unique_words ws) \<le> length unique_words + length ws"
    "length (dedupe wanted (unique_words @ [w]) ws) \<le> length (unique_words @ [w]) + length ws"
    by (rule Cons.IH)+
  then show ?case by auto
qed

lemma create_final_dictionary_short:
  "length (create_final_dictionary file_lines) \<le> 21 * length (read_words file_lines) + 100"
proof -
  let ?u = "dedupe isalpha [] (read_words file_lines)"
  let ?b = "take 10000 ?u"
  let ?s = "each_base (\<lambda>base. map (\<lambda>suffix. base @ suffix) suffixes) ?b ?u"
  let ?p = "each_base (\<lambda>base. map (\<lambda>prefix. prefix @ base) prefixes) ?b ?s"
  let ?c = "each_color colors ?p"
  have u: "length ?u \<le> length (read_words file_lines)"
    using dedupe_length[of isalpha "[]" "read_words file_lines"] by simp
  have b: "length ?b \<le> length ?u" by simp
  have "length ?s \<le> length ?u + 10 * length ?b"
    by (rule each_base_length) (simp add: suffixes_def)
  with b have s: "length ?s \<le> 11 * length ?u" by simp
  have "length ?p \<le> length ?s + 10 * length ?b"
    by (rule each_base_length) (simp add: prefixes_def)
  with b s have p: "length ?p \<le> 21 * length ?u" by simp
  have "length ?c \<le> length ?p + 10 * length colors"
    by (rule each_color_length)
  with p have c: "length ?c \<le> 21 * length ?u + 100" by (simp add: colors_def)
  have "length (create_final_dictionary file_lines)
      \<le> Max {length ?u, length ?s, length ?p, length ?c}"
    by (auto simp: create_final_dictionary_def Let_def)
  also have "\<dots> \<le> 21 * length ?u + 100"
    using s p c by auto
  finally show ?thesis using u by simp
qed

lemma cat_words: "dedupe isalpha [] (read_words [''cat'']) = [''cat'']"
  by code_simp

lemma cat_suffixes:
  "each_base (\<lambda>base. map (\<lambda>suffix. base @ suffix) suffixes) [''cat''] [''cat'']
   = ''cat'' # map (\<lambda>s. ''cat'' @ s) suffixes"
  by (simp add: suffixes_def)

lemma cat_prefixes:
  "each_base (\<lambda>base. map (\<lambda>prefix. prefix @ base) prefixes) [''cat'']
     (''cat'' # map (\<lambda>s. ''cat'' @ s) suffixes)
   = ''cat'' # map (\<lambda>s. ''cat'' @ s) suffixes @ map (\<lambda>p. p @ ''cat'') prefixes"
  by (simp add: suffixes_def prefixes_def)

lemma cat_colors:
  "each_color colors (''cat'' # map (\<lambda>s. ''cat'' @ s) suffixes @ map (\<lambda>p. p @ ''cat'') prefixes)
   = ''cat'' # map (\<lambda>s. ''cat'' @ s) suffixes @ map (\<lambda>p. p @ ''cat'') prefixes
       @ concat (map (\<lambda>c. map (\<lambda>obj. c @ obj) objects) colors)"
  by (simp add: suffixes_def prefixes_def colors_def objects_def)

lemma cat_final:
  "create_final_dictionary [''cat'']
   = ''cat'' # map (\<lambda>s. ''cat'' @ s) suffixes @ map (\<lambda>p. p @ ''cat'') prefixes
       @ concat (map (\<lambda>c. map (\<lambda>obj. c @ obj) objects) colors)"
proof -
  let ?s = "''cat'' # map (\<lambda>s. ''cat'' @ s) suffixes"
  let ?p = "''cat'' # map (\<lambda>s. ''cat'' @ s) suffixes @ map (\<lambda>p. p @ ''cat'') prefixes"
  let ?c = "''cat'' # map (\<lambda>s. ''cat'' @ s) suffixes @ map (\<lambda>p. p @ ''cat'') prefixes
       @ concat (map (\<lambda>c. map (\<lambda>obj. c @ obj) objects) colors)"
  have t: "take 10000 [''cat''] = [''cat'']" by simp
  have l0: "length [''cat''] < 65536" by simp
  have l1: "length ?s < 65536" by (simp add: suffixes_def)
  have l2: "length ?p < 65536" by (simp add: suffixes_def prefixes_def)
  have l3: "take 65536 ?c = ?c"
    by (simp add: suffixes_def prefixes_def colors_def objects_def)
  show ?thesis
    unfolding create_final_dictionary_def cat_words Let_def t
    by (simp only: l0 if_True cat_suffixes l1 cat_prefixes l2 cat_colors l3)
qed

lemma cat_count:
  "length (''cat'' # map (\<lambda>s. ''cat'' @ s) suffixes @ map (\<lambda>p. p @ ''cat'') prefixes
       @ concat (map (\<lambda>c. map (\<lambda>obj. c @ obj) objects) colors)) = 121"
  by (simp add: suffixes_def prefixes_def colors_def objects_def)

lemma fix_dictionary_size_example:
  "fix_dictionary_size [''cat''] [''dog'', ''bird''] = Some [''cat'', ''dog'', ''bird'']"
proof -
  have r: "read_words [''cat''] = [''cat'']" by code_simp
  have s: "map strip [''dog'', ''bird''] = [''dog'', ''bird'']" by code_simp
  have a: "isalpha ''dog''" "is_ascii ''dog''" "isalpha ''bird''" "is_ascii ''bird''"
    by code_simp+
  from s have "replacement_words [''cat''] 65535 [] [''dog'', ''bird''] = [''dog'', ''bird'']"
    using a by (simp add: Let_def)
  with r show ?thesis
    by (simp add: fix_dictionary_size_def Let_def)
qed

text \<open>
  Claim C1. Every run that writes its output should write exactly 65,536 words.
  \<open>create_final_dictionary.py\<close> fills a short list with suffixed and prefixed forms of
  its words and with a hundred colour-object compounds, cuts the list to 65,536 and writes
  it: from a file with the one word \<open>cat\<close> it writes 121 words. And
  \<open>fix_dictionary_size.py\<close> writes what the frequency list gave it, enough or not: a
  dictionary of one word and a list of two make a dictionary of three.
\<close>

theorem short_dictionary_written:
  "create_final_dictionary [''cat'']
     = ''cat'' # map (\<lambda>s. ''cat'' @ s) suffixes @ map (\<lambda>p. p @ ''cat'') prefixes
         @ concat (map (\<lambda>c. map (\<lambda>obj. c @ obj) objects) colors)
   \<and> length (create_final_dictionary [''cat'']) = 121
   \<and> fix_dictionary_size [''cat''] [''dog'', ''bird''] = Some [''cat'', ''dog'', ''bird'']"
  using cat_final cat_count fix_dictionary_size_example by simp

subsection \<open>Which words are written\<close>

lemma digit_not_alpha: "d < 10 \<Longrightarrow> \<not> char_isalpha (digit d)"
  by (simp add: char_isalpha_def char_isupper_def char_islower_def is_az_def is_AZ_def
        digit_def code_def)

lemma decimal_last: "decimal n \<noteq> [] \<and> last (decimal n) = digit (n mod 10)"
  by (subst (1 2) decimal.simps) simp

lemma numbered_word_last:
  "numbered_word idx \<noteq> [] \<and> last (numbered_word idx) = digit (idx mod 10)"
  using decimal_last[of idx] by (simp add: numbered_word_def zfill_def)

lemma numbered_word_not_alpha: "\<not> isalpha (numbered_word idx)"
proof
  assume "isalpha (numbered_word idx)"
  then have "list_all char_isalpha (numbered_word idx)" by (simp add: isalpha_def)
  with numbered_word_last[of idx] have "char_isalpha (digit (idx mod 10))"
    by (metis last_in_set list_all_iff)
  then show False using digit_not_alpha[of "idx mod 10"] by simp
qed

lemma numbered_word_zero: "numbered_word 0 = ''word00000''"
  by code_simp

lemma pad_to_size_eq:
  "pad_to_size output_words
     = output_words @ map numbered_word [length output_words..<65536]"
proof (induction output_words rule: pad_to_size.induct)
  case (1 output_words)
  show ?case
  proof (cases "length output_words < 65536")
    case True
    then have "[length output_words..<65536]
        = length output_words # [Suc (length output_words)..<65536]"
      by (rule upt_conv_Cons)
    moreover from True have "pad_to_size output_words
        = pad_to_size (output_words @ [numbered_word (length output_words)])"
      by (subst pad_to_size.simps) simp
    ultimately show ?thesis using 1[OF True] by simp
  next
    case False
    then have "pad_to_size output_words = output_words"
      by (subst pad_to_size.simps) simp
    with False show ?thesis by simp
  qed
qed

lemma numbered_fill_cases:
  obtains (full) "\<not> length unique_words < 65536"
      "numbered_fill idx unique_words = unique_words"
  | (fresh) "length unique_words < 65536" "numbered_word idx \<notin> set unique_words"
      "numbered_fill idx unique_words
         = numbered_fill (Suc idx) (unique_words @ [numbered_word idx])"
  | (taken) "length unique_words < 65536" "\<not> numbered_word idx \<notin> set unique_words"
      "numbered_fill idx unique_words = numbered_fill (Suc idx) unique_words"
proof (cases "length unique_words < 65536")
  case False
  then have "numbered_fill idx unique_words = unique_words"
    by (subst numbered_fill.simps) simp
  with False show ?thesis by (rule full)
next
  case True
  show ?thesis
  proof (cases "numbered_word idx \<notin> set unique_words")
    case new: True
    with True have "numbered_fill idx unique_words
         = numbered_fill (Suc idx) (unique_words @ [numbered_word idx])"
      by (subst numbered_fill.simps) (simp add: Let_def)
    with True new show ?thesis by (rule fresh)
  next
    case False
    with True have "numbered_fill idx unique_words = numbered_fill (Suc idx) unique_words"
      by (subst numbered_fill.simps) (simp add: Let_def)
    with True False show ?thesis by (rule taken)
  qed
qed

lemma numbered_fill_words:
  "set (numbered_fill idx unique_words) \<subseteq> set unique_words \<union> range numbered_word"
proof (induction idx unique_words rule: numbered_fill.induct)
  case (1 idx unique_words)
  show ?case
  proof (cases idx unique_words rule: numbered_fill_cases)
    case full
    then show ?thesis by simp
  next
    case fresh
    from 1(1)[OF fresh(1) refl fresh(2)] fresh(3) show ?thesis by auto
  next
    case taken
    from 1(2)[OF taken(1) refl taken(2)] taken(3) show ?thesis by simp
  qed
qed

lemma numbered_fill_prefix:
  "take (length unique_words) (numbered_fill idx unique_words) = unique_words"
proof (induction idx unique_words rule: numbered_fill.induct)
  case (1 idx unique_words)
  show ?case
  proof (cases idx unique_words rule: numbered_fill_cases)
    case full
    then show ?thesis by simp
  next
    case fresh
    let ?next = "numbered_fill (Suc idx) (unique_words @ [numbered_word idx])"
    from 1(1)[OF fresh(1) refl fresh(2)]
    have "take (Suc (length unique_words)) ?next = unique_words @ [numbered_word idx]"
      by simp
    then have "take (length unique_words) (take (Suc (length unique_words)) ?next)
        = take (length unique_words) (unique_words @ [numbered_word idx])"
      by (rule arg_cong)
    then have "take (length unique_words) ?next = unique_words"
      by (simp add: min_def)
    with fresh(3) show ?thesis by simp
  next
    case taken
    from 1(2)[OF taken(1) refl taken(2)] taken(3) show ?thesis by simp
  qed
qed

lemma numbered_fill_length:
  "length unique_words \<le> 65536 \<Longrightarrow> length (numbered_fill idx unique_words) = 65536"
proof (induction idx unique_words rule: numbered_fill.induct)
  case (1 idx unique_words)
  show ?case
  proof (cases idx unique_words rule: numbered_fill_cases)
    case full
    with "1.prems" show ?thesis by simp
  next
    case fresh
    from fresh(1) have "length (unique_words @ [numbered_word idx]) \<le> 65536" by simp
    from 1(1)[OF fresh(1) refl fresh(2) this] fresh(3) show ?thesis by simp
  next
    case taken
    from 1(2)[OF taken(1) refl taken(2) "1.prems"] taken(3) show ?thesis by simp
  qed
qed

lemma dedupe_words: "set (dedupe wanted unique_words ws) \<subseteq> set unique_words \<union> set ws"
proof (induction ws arbitrary: unique_words)
  case Nil
  then show ?case by simp
next
  case (Cons w ws)
  have "set (dedupe wanted unique_words ws) \<subseteq> set unique_words \<union> set ws"
    "set (dedupe wanted (unique_words @ [w]) ws) \<subseteq> set (unique_words @ [w]) \<union> set ws"
    by (rule Cons.IH)+
  then show ?case by auto
qed

lemma fix_dictionary_duplicates_words:
  "set (fix_dictionary_duplicates file_lines)
     \<subseteq> set (read_words file_lines) \<union> range numbered_word"
proof -
  let ?u = "dedupe (\<lambda>w. True) [] (read_words file_lines)"
  have u: "set ?u \<subseteq> set (read_words file_lines)"
    using dedupe_words[of "\<lambda>w. True" "[]" "read_words file_lines"] by simp
  have "set (fix_dictionary_duplicates file_lines) \<subseteq> set ?u \<union> set (numbered_fill 0 ?u)"
    by (auto simp: fix_dictionary_duplicates_def Let_def dest: in_set_takeD)
  with numbered_fill_words[of 0 ?u] u show ?thesis by blast
qed

lemma fix_dictionary_duplicates_empty:
  "''word00000'' \<in> set (fix_dictionary_duplicates [])"
proof -
  have "numbered_fill 0 [] = numbered_fill (Suc 0) [numbered_word 0]"
    by (subst numbered_fill.simps) (simp add: Let_def)
  moreover have "take (length [numbered_word 0]) (numbered_fill (Suc 0) [numbered_word 0])
      = [numbered_word 0]"
    by (rule numbered_fill_prefix)
  ultimately have "take 1 (numbered_fill 0 []) = [numbered_word 0]"
    by simp
  then have "numbered_word 0 \<in> set (take 1 (numbered_fill 0 []))"
    by simp
  then have "numbered_word 0 \<in> set (numbered_fill 0 [])"
    by (rule in_set_takeD)
  moreover have "length (numbered_fill 0 []) = 65536"
    by (rule numbered_fill_length) simp
  ultimately have "numbered_word 0 \<in> set (take 65536 (numbered_fill 0 []))"
    by simp
  then show ?thesis
    by (simp add: fix_dictionary_duplicates_def read_words_def numbered_word_zero)
qed

lemma replacement_words_checked:
  "list_all P found \<Longrightarrow>
   (\<And>w. w \<noteq> [] \<and> w \<notin> set current_words \<and> length w \<ge> 2 \<and> isalpha w \<and> is_ascii w \<Longrightarrow> P w)
   \<Longrightarrow> list_all P (replacement_words current_words words_needed found freq_lines)"
proof (induction freq_lines arbitrary: found)
  case Nil
  then show ?case by simp
next
  case (Cons line rest)
  show ?case
  proof (cases "strip line \<noteq> [] \<and> strip line \<notin> set current_words \<and> length (strip line) \<ge> 2
                 \<and> isalpha (strip line) \<and> is_ascii (strip line)")
    case True
    with Cons.prems have all: "list_all P (found @ [strip line])" by simp
    from Cons.IH[OF all Cons.prems(2)] all True show ?thesis
      by (simp add: Let_def)
  next
    case False
    with Cons.IH[OF Cons.prems] show ?thesis by (auto simp: Let_def)
  qed
qed

lemma fix_dictionary_size_added:
  assumes "fix_dictionary_size dict_lines freq_lines = Some out"
  shows "\<exists>added. out = read_words dict_lines @ added
           \<and> list_all (\<lambda>w. isalpha w \<and> is_ascii w \<and> 2 \<le> length w
                             \<and> w \<notin> set (read_words dict_lines)) added"
proof -
  let ?cur = "read_words dict_lines"
  let ?n = "nat (65536 - int (length ?cur))"
  let ?P = "\<lambda>w. isalpha w \<and> is_ascii w \<and> 2 \<le> length w \<and> w \<notin> set ?cur"
  have "list_all ?P (replacement_words ?cur ?n [] freq_lines)"
    by (rule replacement_words_checked) simp_all
  then have "list_all ?P (take ?n (replacement_words ?cur ?n [] freq_lines))"
    by (auto simp: list_all_iff dest: in_set_takeD)
  moreover from assms
  have "out = ?cur @ take ?n (replacement_words ?cur ?n [] freq_lines)"
    by (auto simp: fix_dictionary_size_def Let_def split: if_splits)
  ultimately show ?thesis by blast
qed

lemma size_example:
  "fix_dictionary_size [''cat''] [''DOG'', ''extraordinarily'', ''x'', ''cat'', ''d0g'']
   = Some [''cat'', ''DOG'', ''extraordinarily'']"
proof -
  have r: "read_words [''cat''] = [''cat'']" by code_simp
  have s: "map strip [''DOG'', ''extraordinarily'', ''x'', ''cat'', ''d0g'']
      = [''DOG'', ''extraordinarily'', ''x'', ''cat'', ''d0g'']" by code_simp
  have a: "isalpha ''DOG''" "is_ascii ''DOG''" "isalpha ''extraordinarily''"
    "is_ascii ''extraordinarily''" "\<not> isalpha ''d0g''"
    by code_simp+
  from s have "replacement_words [''cat''] 65535 []
      [''DOG'', ''extraordinarily'', ''x'', ''cat'', ''d0g''] = [''DOG'', ''extraordinarily'']"
    using a by (simp add: Let_def)
  with r show ?thesis
    by (simp add: fix_dictionary_size_def Let_def)
qed

lemma fix_dictionary_duplicates_exact:
  "length (fix_dictionary_duplicates file_lines) = 65536"
proof -
  let ?u = "dedupe (\<lambda>w. True) [] (read_words file_lines)"
  show ?thesis
  proof (cases "length ?u < 65536")
    case True
    then have "length (numbered_fill 0 ?u) = 65536"
      by (intro numbered_fill_length) simp
    with True show ?thesis by (simp add: fix_dictionary_duplicates_def Let_def)
  next
    case False
    then show ?thesis by (simp add: fix_dictionary_duplicates_def Let_def)
  qed
qed

lemma pad_to_size_empty: "''word00000'' \<in> set (pad_to_size [])"
proof -
  have "numbered_word 0 \<in> numbered_word ` {0..<65536}" by simp
  then show ?thesis by (simp add: pad_to_size_eq numbered_word_zero)
qed

text \<open>
  Claim C2, as stated, has every written word alphabetic, lower-case, ASCII and of 2 to 12
  characters. The scripts that pad a short list write numbered words: with nothing to
  start from, \<open>create_readable_dictionary.py\<close> and \<open>fix_dictionary_duplicates.py\<close>
  both write \<open>word00000\<close>, which has digits. And \<open>fix_dictionary_size.py\<close> takes words
  from the frequency list without looking at their case or at an upper length: it adds
  \<open>DOG\<close> and the fifteen letters of \<open>extraordinarily\<close>.
\<close>

theorem numbered_word_counterexample:
  "''word00000'' \<in> set (pad_to_size [])
   \<and> ''word00000'' \<in> set (fix_dictionary_duplicates [])
   \<and> \<not> isalpha ''word00000''
   \<and> fix_dictionary_size [''cat''] [''DOG'', ''extraordinarily'', ''x'', ''cat'', ''d0g'']
       = Some [''cat'', ''DOG'', ''extraordinarily'']
   \<and> lower ''DOG'' \<noteq> ''DOG'' \<and> 12 < length ''extraordinarily''"
proof -
  have "\<not> isalpha ''word00000''" "lower ''DOG'' \<noteq> ''DOG''" "12 < length ''extraordinarily''"
    by code_simp+
  with pad_to_size_empty fix_dictionary_duplicates_empty size_example show ?thesis
    by blast
qed

text \<open>
  Claim C2, amended. A word that \<open>fix_dictionary_size.py\<close> adds from the frequency list
  is alphabetic, ASCII, at least 2 characters long and not in the dictionary yet; its case
  and its greatest length are not checked, and the words of the dictionary come first,
  unchanged. \<open>create_readable_dictionary.py\<close> writes the selected words followed by the
  numbered words \<open>word\<close>\<open>NNNNN\<close> for the places still free up to 65,536. Every word
  that \<open>fix_dictionary_duplicates.py\<close> writes is a word of its input or a numbered word.
  No numbered word is alphabetic.
\<close>

theorem written_words:
  "(fix_dictionary_size dict_lines freq_lines = Some out
      \<longrightarrow> (\<exists>added. out = read_words dict_lines @ added
            \<and> list_all (\<lambda>w. isalpha w \<and> is_ascii w \<and> 2 \<le> length w
                              \<and> w \<notin> set (read_words dict_lines)) added))
   \<and> pad_to_size top_words = top_words @ map numbered_word [length top_words..<65536]
   \<and> (\<forall>w \<in> set (fix_dictionary_duplicates file_lines).
         w \<in> set (read_words file_lines) \<or> (\<exists>idx. w = numbered_word idx))
   \<and> \<not> isalpha (numbered_word idx)"
proof (intro conjI impI ballI)
  assume "fix_dictionary_size dict_lines freq_lines = Some out"
  then show "\<exists>added. out = read_words dict_lines @ added
            \<and> list_all (\<lambda>w. isalpha w \<and> is_ascii w \<and> 2 \<le> length w
                              \<and> w \<notin> set (read_words dict_lines)) added"
    by (rule fix_dictionary_size_added)
next
  show "pad_to_size top_words = top_words @ map numbered_word [length top_words..<65536]"
    by (rule pad_to_size_eq)
next
  fix w assume "w \<in> set (fix_dictionary_duplicates file_lines)"
  with fix_dictionary_duplicates_words[of file_lines]
  show "w \<in> set (read_words file_lines) \<or> (\<exists>idx. w = numbered_word idx)"
    by auto
next
  show "\<not> isalpha (numbered_word idx)" by (rule numbered_word_not_alpha)
qed

theorem written_words_witness:
  "fix_dictionary_size [''cat''] [''DOG'', ''extraordinarily'', ''x'', ''cat'', ''d0g'']
     = Some [''cat'', ''DOG'', ''extraordinarily'']
   \<and> (\<exists>added. [''cat'', ''DOG'', ''extraordinarily''] = read_words [''cat''] @ added
         \<and> list_all (\<lambda>w. isalpha w \<and> is_ascii w \<and> 2 \<le> length w
                           \<and> w \<notin> set (read_words [''cat''])) added)
   \<and> pad_to_size [] = [] @ map numbered_word [length ([] :: string list)..<65536]
   \<and> ''word00000'' \<in> set (fix_dictionary_duplicates [])
   \<and> (''word00000'' \<in> set (read_words []) \<or> (\<exists>idx. ''word00000'' = numbered_word idx))
   \<and> \<not> isalpha (numbered_word 0)"
proof -
  note written = written_words [where dict_lines = "[''cat'']"
      and freq_lines = "[''DOG'', ''extraordinarily'', ''x'', ''cat'', ''d0g'']"
      and out = "[''cat'', ''DOG'', ''extraordinarily'']" and top_words = "[]"
      and file_lines = "[]" and idx = 0]
  note a = written [THEN conjunct1, THEN mp, OF size_example]
  note b = written [THEN conjunct2, THEN conjunct1]
  note c = written [THEN conjunct2, THEN conjunct2, THEN conjunct1, THEN bspec,
      OF fix_dictionary_duplicates_empty]
  note d = written [THEN conjunct2, THEN conjunct2, THEN conjunct2]
  show ?thesis
    by (intro conjI size_example a b fix_dictionary_duplicates_empty c d)
qed


end
